theory Spec2Isabelle
  imports Main "HOL-Library.Sublist" "HOL-Library.AList"
begin

section \<open>Python strings\<close>

text \<open>
  A Python \<open>str\<close> is modelled as a \<open>string\<close>, a list of characters. The characters are
  the code points 0 to 255; the classifications below are Python's on those code points.
\<close>

abbreviation LF :: char where "LF \<equiv> CHR 0x0A"
abbreviation CR :: char where "CR \<equiv> CHR 0x0D"
abbreviation TAB :: char where "TAB \<equiv> CHR 0x09"

text \<open>\<open>str.isspace\<close> on one character; \<open>\s\<close> of the \<open>re\<close> module is the same class.\<close>

definition py_isspace :: "char \<Rightarrow> bool" where
  "py_isspace c = (c \<in> set [CHR 0x09, CHR 0x0A, CHR 0x0B, CHR 0x0C, CHR 0x0D,
                             CHR 0x1C, CHR 0x1D, CHR 0x1E, CHR 0x1F, CHR 0x20,
                             CHR 0x85, CHR 0xA0])"

definition lstrip :: "string \<Rightarrow> string" where
  "lstrip s = dropWhile py_isspace s"

definition rstrip :: "string \<Rightarrow> string" where
  "rstrip s = rev (dropWhile py_isspace (rev s))"

text \<open>\<open>s.strip()\<close>\<close>

definition strip :: "string \<Rightarrow> string" where
  "strip s = rstrip (lstrip s)"

text \<open>\<open>str.lower\<close>: A-Z and the upper-case letters of Latin-1 move 32 code points up.\<close>

definition py_lower_char :: "char \<Rightarrow> char" where
  "py_lower_char c = (let n = (of_char c :: nat) in
     if (65 \<le> n \<and> n \<le> 90) \<or> (192 \<le> n \<and> n \<le> 222 \<and> n \<noteq> 215)
     then char_of (n + 32) else c)"

definition lower :: "string \<Rightarrow> string" where
  "lower s = map py_lower_char s"

text \<open>
  \<open>s.replace(old, new)\<close> for a non-empty \<open>old\<close>: the occurrences are found from the
  left and do not overlap. (The source never calls it with an empty \<open>old\<close>; the model
  leaves \<open>s\<close> unchanged there.)
\<close>

function str_replace :: "string \<Rightarrow> string \<Rightarrow> string \<Rightarrow> string" where
  "str_replace old new [] = []"
| "str_replace old new (c # cs) =
     (if old \<noteq> [] \<and> prefix old (c # cs)
      then new @ str_replace old new (drop (length old) (c # cs))
      else c # str_replace old new cs)"
  by pat_completeness auto
termination
  by (relation "measure (\<lambda>(old, new, s). length s)") auto

text \<open>
  \<open>re.sub(r'C{n,}', rep, s)\<close> for a character class \<open>C\<close> and \<open>n \<ge> 1\<close>: the quantifier is
  greedy, so a match at a position takes the whole run of \<open>C\<close> that starts there and
  succeeds when the run has at least \<open>n\<close> characters; where there is no match the
  character is copied and the scan moves one position on.
\<close>

function re_sub_runs :: "(char \<Rightarrow> bool) \<Rightarrow> nat \<Rightarrow> string \<Rightarrow> string \<Rightarrow> string" where
  "re_sub_runs C n rep [] = []"
| "re_sub_runs C n rep (c # cs) =
     (if C c \<and> n \<le> length (takeWhile C (c # cs))
      then rep @ re_sub_runs C n rep (dropWhile C (c # cs))
      else c # re_sub_runs C n rep cs)"
  by pat_completeness auto
termination
  by (relation "measure (\<lambda>(C, n, rep, s). length s)")
     (auto simp: length_dropWhile_le less_Suc_eq_le)

section \<open>The text normalizer of the parsing service\<close>

text \<open>The class \<open>[ \t]\<close>.\<close>

definition is_blank :: "char \<Rightarrow> bool" where
  "is_blank c = (c = CHR '' '' \<or> c = TAB)"

definition is_newline :: "char \<Rightarrow> bool" where
  "is_newline c = (c = LF)"

text \<open>\<open>nlp_parsing_service._normalize_text\<close>, step by step as the source writes it.\<close>

definition normalize_text :: "string \<Rightarrow> string" where
  "normalize_text text =
     (let text = str_replace [CR] [LF] (str_replace [CR, LF] [LF] text);
          text = re_sub_runs is_blank 1 '' '' text;
          text = re_sub_runs is_newline 3 [LF, LF] text;
          text = str_replace ''0'' ''O'' (str_replace ''|'' ''I'' text)
      in strip text)"

text \<open>
  Two shapes of text used to describe the normalizer's output: no two spaces in a row, and
  no three line feeds in a row.
\<close>

fun no_double_space :: "string \<Rightarrow> bool" where
  "no_double_space (a # b # cs) =
     (\<not> (a = CHR '' '' \<and> b = CHR '' '') \<and> no_double_space (b # cs))"
| "no_double_space _ = True"

fun no_triple_newline :: "string \<Rightarrow> bool" where
  "no_triple_newline (a # b # c # cs) =
     (\<not> (a = LF \<and> b = LF \<and> c = LF) \<and> no_triple_newline (b # c # cs))"
| "no_triple_newline _ = True"

text \<open>
  What the two replacements of the normalizers do to one character, and the characters
  of a text that are not whitespace, in order.
\<close>

definition ocr_fix :: "char \<Rightarrow> char" where
  "ocr_fix c = (if c = CHR ''|'' then CHR ''I'' else if c = CHR ''0'' then CHR ''O'' else c)"

definition visible :: "string \<Rightarrow> string" where
  "visible s = filter (\<lambda>c. \<not> py_isspace c) s"

section \<open>The section-header table\<close>

text \<open>The heading lists of \<open>section_detection_service\<close>, in the order the source writes them.\<close>

definition CERTIFICATE_HEADINGS :: "string list" where
  "CERTIFICATE_HEADINGS =
    [''certificate'', ''certificates'', ''certification'', ''certifications'',
     ''courses'', ''trainings'', ''achievements'', ''skill certifications'',
     ''online courses'', ''licenses'', ''credentials'']"

definition SKILL_HEADINGS :: "string list" where
  "SKILL_HEADINGS =
    [''technical skills'', ''technical skill'', ''skills'', ''skillset'', ''tech skills'',
     ''core skills'', ''key skills'', ''hard skills'', ''professional skills'',
     ''technical proficiencies'', ''technical proficiency'', ''technical expertise'',
     ''software skills'', ''tools & technologies'', ''tools and technologies'',
     ''technologies'', ''tech stack'', ''technical toolkit'', ''programming skills'',
     ''programming languages'', ''programming language'',
     ''it skills'', ''computer skills'', ''domain skills'', ''specialized skills'',
     ''primary skills'', ''relevant skills'', ''development skills'',
     ''technical competencies'', ''skill highlights'', ''skills highlights'',
     ''languages'', ''language'', ''Languages'', ''Language'',
     ''tools'', ''tool'', ''technical tools'', ''software tools'', ''developer tools'']"

definition SUMMARY_HEADINGS :: "string list" where
  "SUMMARY_HEADINGS =
    [''summary'', ''professional summary'', ''career summary'', ''profile'', ''about me'',
     ''about'', ''objective'', ''career objective'', ''professional objective'',
     ''personal statement'', ''overview'', ''executive summary'']"

definition EDUCATION_HEADINGS :: "string list" where
  "EDUCATION_HEADINGS =
    [''education'', ''academic'', ''academics'', ''academic background'',
     ''educational background'', ''educational qualifications'', ''qualification'',
     ''qualifications'', ''education & qualifications'', ''academic qualifications'',
     ''schooling'', ''education details'', ''education history'']"

definition EXPERIENCE_HEADINGS :: "string list" where
  "EXPERIENCE_HEADINGS =
    [''experience'', ''work experience'', ''professional experience'', ''employment'',
     ''employment history'', ''work history'', ''career history'', ''job experience'',
     ''industry experience'', ''internship'', ''internships'', ''internship experience'',
     ''industrial training'', ''training'', ''apprenticeship'', ''practical experience'',
     ''hands-on experience'']"

definition PROJECT_HEADINGS :: "string list" where
  "PROJECT_HEADINGS =
    [''projects'', ''project'', ''personal projects'', ''side projects'',
     ''portfolio projects'', ''key projects'', ''notable projects'', ''selected projects'',
     ''project experience'', ''project work'']"

definition ACHIEVEMENT_HEADINGS :: "string list" where
  "ACHIEVEMENT_HEADINGS =
    [''achievements'', ''achievement'', ''awards'', ''award'', ''honors'', ''honor'',
     ''accomplishments'', ''accomplishment'', ''recognition'', ''recognitions'',
     ''awards & achievements'', ''honors & awards'']"

text \<open>
  \<open>SECTION_HEADERS\<close>: a Python dict, iterated in insertion order, so an association
  list in the order of the source.
\<close>

definition SECTION_HEADERS :: "(string \<times> string list) list" where
  "SECTION_HEADERS =
    [(''summary'', SUMMARY_HEADINGS),
     (''experience'', EXPERIENCE_HEADINGS),
     (''education'', EDUCATION_HEADINGS),
     (''skills'', SKILL_HEADINGS),
     (''certifications'', CERTIFICATE_HEADINGS),
     (''projects'', PROJECT_HEADINGS),
     (''achievements'', ACHIEVEMENT_HEADINGS)]"

text \<open>
  The synonyms that two different sections share: every triple (section, other section,
  synonym) with the synonym in both lists.
\<close>

definition shared_synonyms :: "(string \<times> string \<times> string) list" where
  "shared_synonyms =
     concat (map (\<lambda>(k1, vs1). concat (map (\<lambda>(k2, vs2).
        if k1 \<noteq> k2 then map (\<lambda>v. (k1, k2, v)) (filter (\<lambda>v. v \<in> set vs2) vs1) else [])
        SECTION_HEADERS)) SECTION_HEADERS)"

section \<open>Section detection\<close>

text \<open>
  \<open>str.splitlines()\<close>: a line ends at a line boundary (\<open>\n\<close>, \<open>\r\<close>, \<open>\r\n\<close>, \<open>\v\<close>,
  \<open>\f\<close>, \<open>\x1c\<close>, \<open>\x1d\<close>, \<open>\x1e\<close>, \<open>\x85\<close>); a last line without a boundary is
  kept when it is not empty. The first argument is the line being read.
\<close>

definition is_linebreak :: "char \<Rightarrow> bool" where
  "is_linebreak c = (c \<in> set [CHR 0x0A, CHR 0x0B, CHR 0x0C, CHR 0x0D,
                               CHR 0x1C, CHR 0x1D, CHR 0x1E, CHR 0x85])"

fun splitlines_from :: "string \<Rightarrow> string \<Rightarrow> string list" where
  "splitlines_from cur [] = (if cur = [] then [] else [cur])"
| "splitlines_from cur (c # cs) =
     (if c = CR then
        (case cs of
           [] \<Rightarrow> [cur]
         | d # ds \<Rightarrow> if d = LF then cur # splitlines_from [] ds
                     else cur # splitlines_from [] (d # ds))
      else if is_linebreak c then cur # splitlines_from [] cs
      else splitlines_from (cur @ [c]) cs)"

definition splitlines :: "string \<Rightarrow> string list" where
  "splitlines s = splitlines_from [] s"

text \<open>\<open>sep.join(xs)\<close>\<close>

fun str_join :: "string \<Rightarrow> string list \<Rightarrow> string" where
  "str_join sep [] = []"
| "str_join sep [x] = x"
| "str_join sep (x # y # ys) = x @ sep @ str_join sep (y # ys)"

text \<open>\<open>xs[a:b]\<close> for indices that are not negative.\<close>

definition py_slice :: "'a list \<Rightarrow> nat \<Rightarrow> nat \<Rightarrow> 'a list" where
  "py_slice xs a b = drop a (take b xs)"

definition startswith :: "string \<Rightarrow> string \<Rightarrow> bool" where
  "startswith s p = prefix p s"

definition endswith :: "string \<Rightarrow> string \<Rightarrow> bool" where
  "endswith s p = suffix p s"

text \<open>\<open>sub in s\<close>\<close>

definition str_contains :: "string \<Rightarrow> string \<Rightarrow> bool" where
  "str_contains sub s = sublist sub s"

text \<open>The test of \<open>detect_sections\<close> that a normalized line is a heading for a variant.\<close>

definition is_heading_match :: "string \<Rightarrow> string \<Rightarrow> bool" where
  "is_heading_match normalized v_norm =
     (normalized = v_norm \<or>
      startswith normalized (v_norm @ '' '') \<or>
      endswith normalized ('' '' @ v_norm) \<or>
      str_contains ('' '' @ v_norm @ '' '') ('' '' @ normalized @ '' '') \<or>
      startswith normalized (v_norm @ '':'') \<or>
      startswith normalized (v_norm @ ''-''))"

text \<open>
  The three nested loops that fill \<open>header_spans\<close>, innermost first. The list of
  matches found so far is passed through. The loop over the variants of one section
  stops at the first variant that matches (\<open>break\<close>); the loop over the sections goes on.
\<close>

fun scan_variants ::
  "string \<Rightarrow> nat \<Rightarrow> string \<Rightarrow> string list \<Rightarrow> (string \<times> nat) list \<Rightarrow> (string \<times> nat) list" where
  "scan_variants key i normalized [] header_spans = header_spans"
| "scan_variants key i normalized (variant # variants) header_spans =
     (if is_heading_match normalized (strip (lower variant))
      then (if (key, i) \<notin> set header_spans then header_spans @ [(key, i)] else header_spans)
      else scan_variants key i normalized variants header_spans)"

fun scan_sections ::
  "nat \<Rightarrow> string \<Rightarrow> (string \<times> string list) list \<Rightarrow> (string \<times> nat) list \<Rightarrow> (string \<times> nat) list" where
  "scan_sections i normalized [] header_spans = header_spans"
| "scan_sections i normalized ((key, variants) # table) header_spans =
     scan_sections i normalized table (scan_variants key i normalized variants header_spans)"

fun scan_lines ::
  "nat \<Rightarrow> string list \<Rightarrow> (string \<times> nat) list \<Rightarrow> (string \<times> nat) list" where
  "scan_lines i [] header_spans = header_spans"
| "scan_lines i (line # lines) header_spans =
     (let normalized = lower (strip line)
      in if normalized = [] then scan_lines (Suc i) lines header_spans
         else scan_lines (Suc i) lines (scan_sections i normalized SECTION_HEADERS header_spans))"

text \<open>\<open>header_spans\<close> as the first loop of \<open>detect_sections\<close> leaves it.\<close>

definition find_headers :: "string list \<Rightarrow> (string \<times> nat) list" where
  "find_headers lines = scan_lines 0 lines []"

text \<open>
  The span of every heading match, for a document of \<open>n\<close> lines: the section key, the
  first line of the body (\<open>start_line\<close>) and the line after its last (\<open>end_line\<close>), which
  is the line of the next match or \<open>n\<close>.
\<close>

fun section_spans :: "nat \<Rightarrow> (string \<times> nat) list \<Rightarrow> (string \<times> nat \<times> nat) list" where
  "section_spans n [] = []"
| "section_spans n ((key, line_idx) # rest) =
     (key, line_idx + 1, (case rest of [] \<Rightarrow> n | (_, next_idx) # _ \<Rightarrow> next_idx))
       # section_spans n rest"

datatype py_error = KeyError | ValueError | OtherError

text \<open>
  The second loop: the body of each span is cut out of the lines and merged into the
  dict. \<open>sections[key]\<close> raises \<open>KeyError\<close> for a key that the dict does not have.
\<close>

fun merge_spans ::
  "string list \<Rightarrow> (string \<times> nat \<times> nat) list \<Rightarrow> (string \<times> string) list
     \<Rightarrow> py_error + (string \<times> string) list" where
  "merge_spans lines [] sections = Inr sections"
| "merge_spans lines ((key, start_line, end_line) # spans) sections =
     (let body = strip (str_join [LF] (py_slice lines start_line end_line))
      in case map_of sections key of
           None \<Rightarrow> Inl KeyError
         | Some cur \<Rightarrow>
             merge_spans lines spans
               (AList.update key (if cur \<noteq> [] then cur @ [LF, LF] @ body else body) sections))"

text \<open>\<open>detect_sections\<close>\<close>

definition detect_sections :: "string \<Rightarrow> py_error + (string \<times> string) list" where
  "detect_sections text =
     (let lines = splitlines text;
          sections = map (\<lambda>k. (k, [])) (map fst SECTION_HEADERS);
          header_spans = find_headers lines
      in if header_spans = [] then Inr sections
         else merge_spans lines
                (section_spans (length lines) (sort_key snd header_spans)) sections)"

text \<open>
  A description of \<open>header_spans\<close> line by line, to compare with the loops: a section
  matches a normalized line when one of its variants does, and a line that is not blank
  gets one heading match for every section of the table that matches it, in table order.
\<close>

definition section_matches :: "string list \<Rightarrow> string \<Rightarrow> bool" where
  "section_matches variants normalized =
     (\<exists>variant \<in> set variants. is_heading_match normalized (strip (lower variant)))"

definition line_headers :: "nat \<times> string \<Rightarrow> (string \<times> nat) list" where
  "line_headers = (\<lambda>(i, line).
     let normalized = lower (strip line)
     in if normalized = [] then []
        else map (\<lambda>(key, variants). (key, i))
               (filter (\<lambda>(key, variants). section_matches variants normalized) SECTION_HEADERS))"

section \<open>Regular expressions\<close>

text \<open>
  The patterns of the source are written in a small regular-expression type and run by a
  backtracking matcher that tries the alternatives in the order of Python's \<open>re\<close>
  module: the left branch of \<open>|\<close> first, and as many characters as possible for a greedy
  quantifier. \<open>Many C\<close> is \<open>C*\<close> for a character class \<open>C\<close>; \<open>Grp n r\<close> is the
  capturing group number \<open>n\<close>; \<open>Bol\<close>, \<open>Eol\<close> and \<open>Wordb\<close> are \<open>^\<close>, \<open>$\<close> and
  \<open>\b\<close>.
\<close>

datatype rx =
    Cls "char \<Rightarrow> bool"
  | Many "char \<Rightarrow> bool"
  | Eps
  | Seq rx rx
  | Alt rx rx
  | Grp nat rx
  | Bol
  | Eol
  | Wordb

text \<open>\<open>\d\<close> and \<open>\w\<close> on the code points 0 to 255.\<close>

definition is_digit :: "char \<Rightarrow> bool" where
  "is_digit c = (c \<in> set ''0123456789'')"

definition is_alpha_ascii :: "char \<Rightarrow> bool" where
  "is_alpha_ascii c =
     (c \<in> set ''abcdefghijklmnopqrstuvwxyzABCDEFGHIJKLMNOPQRSTUVWXYZ'')"

definition is_word_char :: "char \<Rightarrow> bool" where
  "is_word_char c = (let n = (of_char c :: nat) in
     is_digit c \<or> is_alpha_ascii c \<or> c = CHR ''_'' \<or>
     n \<in> {170, 178, 179, 181, 185, 186, 188, 189, 190} \<or>
     (192 \<le> n \<and> n \<le> 214) \<or> (216 \<le> n \<and> n \<le> 246) \<or> 248 \<le> n)"

text \<open>
  A matcher state: the character before the current position (\<open>None\<close> at the start of
  the string), the rest of the string, and the groups captured so far.
\<close>

type_synonym mstate = "char option \<times> string \<times> (nat \<times> string) list"

definition at_word_boundary :: "char option \<Rightarrow> string \<Rightarrow> bool" where
  "at_word_boundary prev s =
     ((case prev of None \<Rightarrow> False | Some c \<Rightarrow> is_word_char c) \<noteq>
      (case s of [] \<Rightarrow> False | c # _ \<Rightarrow> is_word_char c))"

text \<open>All the ways to match a pattern at a state, in the order the matcher tries them.\<close>

fun rx_run :: "rx \<Rightarrow> mstate \<Rightarrow> mstate list" where
  "rx_run (Cls C) (prev, s, caps) =
     (case s of [] \<Rightarrow> [] | c # cs \<Rightarrow> if C c then [(Some c, cs, caps)] else [])"
| "rx_run (Many C) (prev, s, caps) =
     map (\<lambda>k. (if k = 0 then prev else Some (s ! (k - 1)), drop k s, caps))
         (rev [0 ..< Suc (length (takeWhile C s))])"
| "rx_run Eps st = [st]"
| "rx_run (Seq a b) st = concat (map (rx_run b) (rx_run a st))"
| "rx_run (Alt a b) st = rx_run a st @ rx_run b st"
| "rx_run (Grp n a) (prev, s, caps) =
     map (\<lambda>(prev', s', caps'). (prev', s', (n, take (length s - length s') s) # caps'))
         (rx_run a (prev, s, caps))"
| "rx_run Bol (prev, s, caps) = (if prev = None then [(prev, s, caps)] else [])"
| "rx_run Eol (prev, s, caps) = (if s = [] \<or> s = [LF] then [(prev, s, caps)] else [])"
| "rx_run Wordb (prev, s, caps) = (if at_word_boundary prev s then [(prev, s, caps)] else [])"

text \<open>The quantifiers \<open>?\<close>, \<open>{n}\<close>, \<open>{0,n}\<close>, \<open>{m,n}\<close>, \<open>+\<close> and \<open>{m,}\<close>, and literal text.\<close>

definition rx_opt :: "rx \<Rightarrow> rx" where
  "rx_opt r = Alt r Eps"

primrec rx_rep :: "nat \<Rightarrow> rx \<Rightarrow> rx" where
  "rx_rep 0 r = Eps"
| "rx_rep (Suc n) r = Seq r (rx_rep n r)"

primrec rx_upto :: "nat \<Rightarrow> rx \<Rightarrow> rx" where
  "rx_upto 0 r = Eps"
| "rx_upto (Suc n) r = Alt (Seq r (rx_upto n r)) Eps"

definition rx_between :: "nat \<Rightarrow> nat \<Rightarrow> rx \<Rightarrow> rx" where
  "rx_between m n r = Seq (rx_rep m r) (rx_upto (n - m) r)"

definition rx_atleast :: "nat \<Rightarrow> (char \<Rightarrow> bool) \<Rightarrow> rx" where
  "rx_atleast m C = Seq (rx_rep m (Cls C)) (Many C)"

definition rx_chr :: "char \<Rightarrow> rx" where
  "rx_chr c = Cls (\<lambda>d. d = c)"

definition rx_lit :: "string \<Rightarrow> rx" where
  "rx_lit s = foldr (\<lambda>c r. Seq (rx_chr c) r) s Eps"

text \<open>Literal text under \<open>re.IGNORECASE\<close>.\<close>

definition rx_lit_i :: "string \<Rightarrow> rx" where
  "rx_lit_i s = foldr (\<lambda>c r. Seq (Cls (\<lambda>d. py_lower_char d = py_lower_char c)) r) s Eps"

text \<open>
  \<open>re.match(r, s)\<close>: the first way to match at the start of the string, as the matched
  text (\<open>group(0)\<close>) and the captured groups; \<open>None\<close> when there is none.
\<close>

definition re_match_at :: "rx \<Rightarrow> char option \<Rightarrow> string \<Rightarrow> (string \<times> (nat \<times> string) list) option" where
  "re_match_at r prev s =
     (case rx_run r (prev, s, []) of
        [] \<Rightarrow> None
      | (prev', s', caps) # _ \<Rightarrow> Some (take (length s - length s') s, caps))"

definition re_match :: "rx \<Rightarrow> string \<Rightarrow> (string \<times> (nat \<times> string) list) option" where
  "re_match r s = re_match_at r None s"

text \<open>\<open>re.search(r, s)\<close>: the first position, from the left, where the pattern matches.\<close>

fun re_search_from :: "rx \<Rightarrow> char option \<Rightarrow> string \<Rightarrow> (string \<times> (nat \<times> string) list) option" where
  "re_search_from r prev [] = re_match_at r prev []"
| "re_search_from r prev (c # cs) =
     (case re_match_at r prev (c # cs) of
        Some m \<Rightarrow> Some m
      | None \<Rightarrow> re_search_from r (Some c) cs)"

definition re_search :: "rx \<Rightarrow> string \<Rightarrow> (string \<times> (nat \<times> string) list) option" where
  "re_search r s = re_search_from r None s"

text \<open>\<open>m.group(n)\<close> for a group that took part in the match.\<close>

definition group :: "(string \<times> (nat \<times> string) list) \<Rightarrow> nat \<Rightarrow> string" where
  "group m n = (if n = 0 then fst m else case map_of (snd m) n of Some g \<Rightarrow> g | None \<Rightarrow> [])"

text \<open>
  \<open>re.sub(r, '', s)\<close> for a pattern that starts with \<open>^\<close>: it can match at the start of
  the string only, so at most that one match is removed.
\<close>

definition re_sub_at_start :: "rx \<Rightarrow> string \<Rightarrow> string" where
  "re_sub_at_start r s =
     (case re_match r s of None \<Rightarrow> s | Some m \<Rightarrow> drop (length (fst m)) s)"

text \<open>\<open>re.sub(r'[C]', '', s)\<close> for a character class: the characters of the class go.\<close>

definition re_sub_class :: "(char \<Rightarrow> bool) \<Rightarrow> string \<Rightarrow> string" where
  "re_sub_class C s = filter (\<lambda>c. \<not> C c) s"

text \<open>
  A pattern is sound for \<open>\<Phi>\<close> when every way it matches consumes a prefix \<open>u\<close> of the
  text, and \<open>\<Phi>\<close> holds of \<open>u\<close> and of the groups before and after.
\<close>

definition rx_sound :: "rx \<Rightarrow> (string \<Rightarrow> (nat \<times> string) list \<Rightarrow> (nat \<times> string) list \<Rightarrow> bool) \<Rightarrow> bool" where
  "rx_sound r \<Phi> =
     (\<forall>p s caps p' s' caps'. (p', s', caps') \<in> set (rx_run r (p, s, caps)) \<longrightarrow>
        (\<exists>u. s = u @ s' \<and> \<Phi> u caps caps'))"

section \<open>The date normalizer of the certification service\<close>

text \<open>\<open>s.zfill(n)\<close>: zeros on the left, after a sign.\<close>

definition zfill :: "nat \<Rightarrow> string \<Rightarrow> string" where
  "zfill n s =
     (case s of
        [] \<Rightarrow> replicate n (CHR ''0'')
      | c # cs \<Rightarrow> if c = CHR ''+'' \<or> c = CHR ''-''
                  then c # replicate (n - length s) (CHR ''0'') @ cs
                  else replicate (n - length s) (CHR ''0'') @ s)"

text \<open>\<open>int(s)\<close> for a string of decimal digits, which is all the patterns let through.\<close>

definition py_int :: "string \<Rightarrow> nat" where
  "py_int s = foldl (\<lambda>n c. 10 * n + (of_char c - 48)) 0 s"

text \<open>\<open>^(issued|completed|earned|obtained|received|date[:]?)\s*:?\s*\<close>, ignoring case\<close>

definition DATE_PREFIX :: rx where
  "DATE_PREFIX =
     Seq Bol (Seq (Grp 1 (Alt (rx_lit_i ''issued'') (Alt (rx_lit_i ''completed'')
                (Alt (rx_lit_i ''earned'') (Alt (rx_lit_i ''obtained'')
                (Alt (rx_lit_i ''received'') (Seq (rx_lit_i ''date'') (rx_opt (rx_chr (CHR '':''))))))))))
         (Seq (Many py_isspace) (Seq (rx_opt (rx_chr (CHR '':''))) (Many py_isspace))))"

definition is_date_sep :: "char \<Rightarrow> bool" where
  "is_date_sep c = (c = CHR ''/'' \<or> c = CHR ''-'')"

text \<open>\<open>^(\d{1,2})[/-](\d{4})$\<close>\<close>

definition MM_YYYY :: rx where
  "MM_YYYY = Seq Bol (Seq (Grp 1 (rx_between 1 2 (Cls is_digit)))
               (Seq (Cls is_date_sep) (Seq (Grp 2 (rx_rep 4 (Cls is_digit))) Eol)))"

text \<open>\<open>^(\d{4})[-/](\d{1,2})$\<close>\<close>

definition ISO_YYYY_MM :: rx where
  "ISO_YYYY_MM = Seq Bol (Seq (Grp 1 (rx_rep 4 (Cls is_digit)))
               (Seq (Cls is_date_sep) (Seq (Grp 2 (rx_between 1 2 (Cls is_digit))) Eol)))"

text \<open>\<open>\b(19|20)\d{2}\b\<close>\<close>

definition YEAR_RX :: rx where
  "YEAR_RX = Seq Wordb (Seq (Grp 1 (Alt (rx_lit ''19'') (rx_lit ''20'')))
               (Seq (rx_rep 2 (Cls is_digit)) Wordb))"

text \<open>\<open>^\d{1,2}[/-](\d{1,2})[/-](\d{4})$\<close>\<close>

definition DD_MM_YYYY :: rx where
  "DD_MM_YYYY = Seq Bol (Seq (rx_between 1 2 (Cls is_digit)) (Seq (Cls is_date_sep)
               (Seq (Grp 1 (rx_between 1 2 (Cls is_digit))) (Seq (Cls is_date_sep)
               (Seq (Grp 2 (rx_rep 4 (Cls is_digit))) Eol)))))"

text \<open>\<open>(\d{1,2})[/-](\d{4})\<close>\<close>

definition MM_YYYY_IN_TEXT :: rx where
  "MM_YYYY_IN_TEXT = Seq (Grp 1 (rx_between 1 2 (Cls is_digit)))
               (Seq (Cls is_date_sep) (Grp 2 (rx_rep 4 (Cls is_digit))))"

text \<open>
  The dict \<open>month_names\<close> in iteration order: a key written twice (\<open>may\<close>) keeps its
  first place.
\<close>

definition month_names :: "(string \<times> string) list" where
  "month_names =
    [(''january'', ''01''), (''february'', ''02''), (''march'', ''03''), (''april'', ''04''),
     (''may'', ''05''), (''june'', ''06''), (''july'', ''07''), (''august'', ''08''),
     (''september'', ''09''), (''october'', ''10''), (''november'', ''11''), (''december'', ''12''),
     (''jan'', ''01''), (''feb'', ''02''), (''mar'', ''03''), (''apr'', ''04''),
     (''jun'', ''06''), (''jul'', ''07''), (''aug'', ''08''),
     (''sep'', ''09''), (''sept'', ''09''), (''oct'', ''10''), (''nov'', ''11''), (''dec'', ''12'')]"

text \<open>The month and year of a match whose groups 1 and 2 are \<open>month\<close> and \<open>year\<close>.\<close>

definition checked_month_year :: "string \<Rightarrow> string \<Rightarrow> string option" where
  "checked_month_year month_digits year =
     (let month = zfill 2 month_digits
      in if 1 \<le> py_int month \<and> py_int month \<le> 12 then Some (month @ ''/'' @ year) else None)"

text \<open>The loop over \<open>month_names\<close>.\<close>

fun scan_month_names :: "(string \<times> string) list \<Rightarrow> string \<Rightarrow> string \<Rightarrow> string option" where
  "scan_month_names [] date_lower date_str = None"
| "scan_month_names ((month_name, month_num) # rest) date_lower date_str =
     (if str_contains month_name date_lower
      then (case re_search YEAR_RX date_str of
              Some year_match \<Rightarrow> Some (month_num @ ''/'' @ group year_match 0)
            | None \<Rightarrow> scan_month_names rest date_lower date_str)
      else scan_month_names rest date_lower date_str)"

text \<open>
  \<open>_normalize_date\<close>. Each \<open>if\<close> block of the source either returns or falls through
  to the next one.
\<close>

definition normalize_date :: "string option \<Rightarrow> string option" where
  "normalize_date date_str =
    (case date_str of
       None \<Rightarrow> None
     | Some raw \<Rightarrow>
        (if raw = [] then None
         else
          (let date_str = strip raw;
               date_str = re_sub_at_start DATE_PREFIX date_str;
               date_str = strip date_str
           in
           (case (case re_match MM_YYYY date_str of
                    None \<Rightarrow> None
                  | Some mm_yyyy_match \<Rightarrow>
                      checked_month_year (group mm_yyyy_match 1) (group mm_yyyy_match 2)) of
              Some result \<Rightarrow> Some result
            | None \<Rightarrow>
           (case (case re_match ISO_YYYY_MM date_str of
                    None \<Rightarrow> None
                  | Some iso_match \<Rightarrow>
                      checked_month_year (group iso_match 2) (group iso_match 1)) of
              Some result \<Rightarrow> Some result
            | None \<Rightarrow>
           (case scan_month_names month_names (lower date_str) date_str of
              Some result \<Rightarrow> Some result
            | None \<Rightarrow>
           (case (case re_match DD_MM_YYYY date_str of
                    None \<Rightarrow> None
                  | Some ddmmyyyy_match \<Rightarrow>
                      checked_month_year (group ddmmyyyy_match 1) (group ddmmyyyy_match 2)) of
              Some result \<Rightarrow> Some result
            | None \<Rightarrow>
           (case re_search YEAR_RX date_str of
              Some year_match \<Rightarrow> Some (''01/'' @ group year_match 0)
            | None \<Rightarrow>
           (case re_search MM_YYYY_IN_TEXT date_str of
              None \<Rightarrow> None
            | Some mm_yyyy_in_text \<Rightarrow>
                checked_month_year (group mm_yyyy_in_text 1) (group mm_yyyy_in_text 2))))))))))"

text \<open>
  The normalizer as the specification words it: the text is cleaned, six patterns are
  tried in a fixed order, and the first one that succeeds gives the result. A pattern
  whose month is out of the range 1 to 12 does not succeed.
\<close>

definition clean_date :: "string \<Rightarrow> string" where
  "clean_date raw = strip (re_sub_at_start DATE_PREFIX (strip raw))"

definition exact_mm_yyyy :: "string \<Rightarrow> string option" where
  "exact_mm_yyyy s =
     (case re_match MM_YYYY s of
        None \<Rightarrow> None
      | Some m \<Rightarrow> checked_month_year (group m 1) (group m 2))"

definition iso_yyyy_mm :: "string \<Rightarrow> string option" where
  "iso_yyyy_mm s =
     (case re_match ISO_YYYY_MM s of
        None \<Rightarrow> None
      | Some m \<Rightarrow> checked_month_year (group m 2) (group m 1))"

definition month_name_year :: "string \<Rightarrow> string option" where
  "month_name_year s = scan_month_names month_names (lower s) s"

definition dd_mm_yyyy :: "string \<Rightarrow> string option" where
  "dd_mm_yyyy s =
     (case re_match DD_MM_YYYY s of
        None \<Rightarrow> None
      | Some m \<Rightarrow> checked_month_year (group m 1) (group m 2))"

definition bare_year :: "string \<Rightarrow> string option" where
  "bare_year s =
     (case re_search YEAR_RX s of
        None \<Rightarrow> None
      | Some m \<Rightarrow> Some (''01/'' @ group m 0))"

definition embedded_mm_yyyy :: "string \<Rightarrow> string option" where
  "embedded_mm_yyyy s =
     (case re_search MM_YYYY_IN_TEXT s of
        None \<Rightarrow> None
      | Some m \<Rightarrow> checked_month_year (group m 1) (group m 2))"

definition date_patterns :: "(string \<Rightarrow> string option) list" where
  "date_patterns =
     [exact_mm_yyyy, iso_yyyy_mm, month_name_year, dd_mm_yyyy, bare_year, embedded_mm_yyyy]"

fun first_success :: "('a \<Rightarrow> 'b option) list \<Rightarrow> 'a \<Rightarrow> 'b option" where
  "first_success [] x = None"
| "first_success (p # ps) x = (case p x of Some r \<Rightarrow> Some r | None \<Rightarrow> first_success ps x)"

definition spec_normalize_date :: "string option \<Rightarrow> string option" where
  "spec_normalize_date date_str =
     (case date_str of
        None \<Rightarrow> None
      | Some raw \<Rightarrow> if raw = [] then None else first_success date_patterns (clean_date raw))"

text \<open>
  The form \<open>MM/YYYY\<close>: two digits that read as a month from 1 to 12, a slash, four
  digits.
\<close>

definition is_mm_yyyy :: "string \<Rightarrow> bool" where
  "is_mm_yyyy r =
     (length r = 7 \<and> list_all is_digit (take 2 r) \<and> r ! 2 = CHR ''/'' \<and>
      list_all is_digit (drop 3 r) \<and> 1 \<le> py_int (take 2 r) \<and> py_int (take 2 r) \<le> 12)"

section \<open>Contact validation in the parsing service\<close>

text \<open>\<open>[a-zA-Z0-9._%+-]+@[a-zA-Z0-9.-]+\.[a-zA-Z]{2,}\<close>\<close>

definition is_email_local :: "char \<Rightarrow> bool" where
  "is_email_local c = (is_alpha_ascii c \<or> is_digit c \<or> c \<in> set ''._%+-'')"

definition is_email_domain :: "char \<Rightarrow> bool" where
  "is_email_domain c = (is_alpha_ascii c \<or> is_digit c \<or> c \<in> set ''.-'')"

definition EMAIL_REGEX :: rx where
  "EMAIL_REGEX =
     Seq (rx_atleast 1 is_email_local) (Seq (rx_chr (CHR ''@''))
       (Seq (rx_atleast 1 is_email_domain) (Seq (rx_chr (CHR ''.''))
         (rx_atleast 2 is_alpha_ascii))))"

text \<open>\<open>\b\d{6}\b\<close> and \<open>\b\d{5}\b\<close>\<close>

definition POSTCODE_INDIA :: rx where
  "POSTCODE_INDIA = Seq Wordb (Seq (rx_rep 6 (Cls is_digit)) Wordb)"

definition POSTCODE_USA :: rx where
  "POSTCODE_USA = Seq Wordb (Seq (rx_rep 5 (Cls is_digit)) Wordb)"

text \<open>\<open>^\+?\d{10,15}$\<close>\<close>

definition PHONE_VALID :: rx where
  "PHONE_VALID =
     Seq Bol (Seq (rx_opt (rx_chr (CHR ''+''))) (Seq (rx_between 10 15 (Cls is_digit)) Eol))"

text \<open>The class \<open>[\s\-()]\<close>.\<close>

definition is_phone_noise :: "char \<Rightarrow> bool" where
  "is_phone_noise c = (py_isspace c \<or> c \<in> set ''-()'')"

text \<open>\<open>_validate_email\<close>: an absent or empty value is absent.\<close>

definition validate_email :: "string option \<Rightarrow> string option" where
  "validate_email email =
     (case email of
        None \<Rightarrow> None
      | Some e \<Rightarrow>
          if e = [] then None
          else (let email = strip e
                in if re_match EMAIL_REGEX email \<noteq> None then Some (lower email) else None))"

text \<open>\<open>_validate_phone\<close>\<close>

definition validate_phone :: "string option \<Rightarrow> string option" where
  "validate_phone phone =
     (case phone of
        None \<Rightarrow> None
      | Some p \<Rightarrow>
          if p = [] then None
          else (let cleaned = re_sub_class is_phone_noise (strip p)
                in if re_match PHONE_VALID cleaned \<noteq> None then Some cleaned else None))"

text \<open>The postcode check of \<open>_parse_personal_details\<close>: the value is kept as it came.\<close>

definition validate_post_code :: "string option \<Rightarrow> string option" where
  "validate_post_code post_code =
     (case post_code of
        None \<Rightarrow> None
      | Some p \<Rightarrow>
          if p = [] then Some p
          else (let post_code_clean = strip p
                in if \<not> (re_match POSTCODE_INDIA post_code_clean \<noteq> None \<or>
                          re_match POSTCODE_USA post_code_clean \<noteq> None)
                   then None else Some p))"

text \<open>\<open>s.split()\<close>: the words between runs of whitespace.\<close>

fun split_words_from :: "string \<Rightarrow> string \<Rightarrow> string list" where
  "split_words_from cur [] = (if cur = [] then [] else [cur])"
| "split_words_from cur (c # cs) =
     (if py_isspace c
      then (if cur = [] then split_words_from [] cs else cur # split_words_from [] cs)
      else split_words_from (cur @ [c]) cs)"

definition str_split :: "string \<Rightarrow> string list" where
  "str_split s = split_words_from [] s"

definition JOB_TITLE_KEYWORDS :: "string list" where
  "JOB_TITLE_KEYWORDS =
    [''engineer'', ''developer'', ''manager'', ''analyst'', ''designer'', ''specialist'',
     ''consultant'', ''director'', ''lead'', ''senior'', ''junior'', ''associate'',
     ''architect'', ''scientist'', ''researcher'', ''coordinator'', ''executive'']"

definition ORG_KEYWORDS :: "string list" where
  "ORG_KEYWORDS =
    [''university'', ''college'', ''institute'', ''school'', ''corporation'', ''inc'',
     ''ltd'', ''llc'', ''company'', ''technologies'', ''solutions'', ''systems'']"

text \<open>\<open>^[A-Za-z\-\']+$\<close>\<close>

definition is_name_char :: "char \<Rightarrow> bool" where
  "is_name_char c = (is_alpha_ascii c \<or> c = CHR ''-'' \<or> c = CHR 0x27)"

definition NAME_WORD :: rx where
  "NAME_WORD = Seq Bol (Seq (rx_atleast 1 is_name_char) Eol)"

text \<open>\<open>_is_likely_name\<close>\<close>

definition is_likely_name :: "string \<Rightarrow> bool" where
  "is_likely_name text =
     (let text_lower = lower text
      in if \<exists>keyword \<in> set JOB_TITLE_KEYWORDS. str_contains keyword text_lower then False
         else if \<exists>keyword \<in> set ORG_KEYWORDS. str_contains keyword text_lower then False
         else (let words = str_split text
               in if words = [] then False
                  else (\<forall>word \<in> set words. re_match NAME_WORD word \<noteq> None)))"

text \<open>\<open>_split_name\<close>\<close>

definition split_name :: "string option \<Rightarrow> string option \<times> string option" where
  "split_name full_name =
     (case full_name of
        None \<Rightarrow> (None, None)
      | Some n \<Rightarrow>
          if n = [] then (None, None)
          else (case str_split (strip n) of
                  [] \<Rightarrow> (None, None)
                | [w] \<Rightarrow> (Some w, None)
                | [w1, w2] \<Rightarrow> (Some w1, Some w2)
                | w # ws \<Rightarrow> (Some w, Some (str_join '' '' ws))))"

text \<open>\<open>str.isdigit\<close> on one character.\<close>

definition py_isdigit :: "char \<Rightarrow> bool" where
  "py_isdigit c = (is_digit c \<or> c \<in> set [CHR 0xB2, CHR 0xB3, CHR 0xB9])"

record Contacts =
  first_name :: "string option"
  last_name :: "string option"
  desired_job_title :: "string option"
  email :: "string option"
  phone :: "string option"
  location :: "string option"
  country :: "string option"
  city :: "string option"
  address :: "string option"
  post_code :: "string option"
  leetcode_url :: "string option"
  github_url :: "string option"
  linkedin_url :: "string option"

text \<open>\<open>Contacts()\<close>: every field absent.\<close>

definition empty_contacts :: Contacts where
  "empty_contacts =
     \<lparr>first_name = None, last_name = None, desired_job_title = None, email = None,
      phone = None, location = None, country = None, city = None, address = None,
      post_code = None, leetcode_url = None, github_url = None, linkedin_url = None\<rparr>"

text \<open>
  Truthiness of an optional string, and \<open>a or b\<close> on optional strings: an absent or
  empty value is false.
\<close>

definition truthy :: "string option \<Rightarrow> bool" where
  "truthy v = (case v of None \<Rightarrow> False | Some s \<Rightarrow> s \<noteq> [])"

definition py_or :: "string option \<Rightarrow> string option \<Rightarrow> string option" where
  "py_or a b = (if truthy a then a else b)"

text \<open>The three regex fallback values of \<open>_parse_personal_details\<close>.\<close>

record fallbacks =
  email_fallback :: "string option"
  phone_fallback :: "string option"
  github_fallback :: "string option"
  leetcode_fallback :: "string option"
  linkedin_fallback :: "string option"

text \<open>The \<open>Contacts\<close> built from the regex fallbacks alone.\<close>

definition fallback_contacts :: "fallbacks \<Rightarrow> Contacts" where
  "fallback_contacts fb =
     empty_contacts\<lparr>email := email_fallback fb, phone := phone_fallback fb,
                    github_url := github_fallback fb, leetcode_url := leetcode_fallback fb,
                    linkedin_url := linkedin_fallback fb\<rparr>"

text \<open>
  The part of \<open>_parse_personal_details\<close> after the extractor has answered with a JSON
  object \<open>data\<close> whose values are strings or null; \<open>data.get(k)\<close> is \<open>data k\<close>.
\<close>

definition contacts_from_data :: "(string \<rightharpoonup> string) \<Rightarrow> fallbacks \<Rightarrow> Contacts" where
  "contacts_from_data data fb =
     (let full_name = data ''full_name'';
          names =
            (if truthy full_name then
               (let full_name = strip (the full_name)
                in if is_likely_name full_name then split_name (Some full_name)
                   else if length (str_split full_name) \<le> 4 \<and>
                           \<not> (\<exists>char \<in> set full_name. py_isdigit char)
                        then split_name (Some full_name)
                        else (None, None))
             else (None, None));
          first_name = fst names;
          last_name = snd names;
          email_ai = validate_email (data ''email'');
          email = (if truthy email_ai then email_ai else email_fallback fb);
          phone_raw = data ''phone'';
          phone_ai = (if truthy phone_raw then validate_phone phone_raw else None);
          phone = (if truthy phone_ai then phone_ai else phone_fallback fb);
          location = data ''location'';
          country = data ''country'';
          city = data ''city'';
          address = data ''address'';
          post_code = validate_post_code (data ''post_code'');
          desired_job_title =
            (if truthy (data ''desired_job_title'')
             then Some (str_replace ''Engg'' ''Engineer''
                         (str_replace ''S/W'' ''Software'' (strip (the (data ''desired_job_title'')))))
             else data ''desired_job_title'');
          linkedin_url = py_or (data ''linkedin_url'') (linkedin_fallback fb);
          github_url = py_or (data ''github_url'') (github_fallback fb);
          leetcode_url = py_or (data ''leetcode_url'') (leetcode_fallback fb);
          location =
            (if \<not> truthy location \<and> (truthy city \<or> truthy country)
             then Some (str_join '', '' (map the (filter truthy [city, country])))
             else location);
          contacts =
            \<lparr>first_name = first_name, last_name = last_name,
             desired_job_title = desired_job_title, email = email, phone = phone,
             location = location, country = country, city = city, address = address,
             post_code = post_code, leetcode_url = leetcode_url, github_url = github_url,
             linkedin_url = linkedin_url\<rparr>
      in if truthy email \<or> truthy first_name \<or> truthy phone \<or> truthy desired_job_title \<or>
            truthy location \<or> truthy city \<or> truthy country
         then contacts
         else if truthy (email_fallback fb) \<or> truthy (phone_fallback fb)
              then fallback_contacts fb
              else empty_contacts)"

section \<open>The parsing pipeline\<close>

text \<open>
  \<open>ResumeData\<close>. The entry types are left open: the pipeline hands the entries on as
  the section parsers return them.
\<close>

record ('x, 'e, 's, 'p, 'c) ResumeData =
  contacts :: "Contacts option"
  experience :: "'x list option"
  education :: "'e list option"
  skills :: "'s option"
  projects :: "'p list option"
  certifications :: "'c list option"
  achievements :: "string list option"
  summary :: "string option"

text \<open>\<open>ResumeData(contacts=Contacts())\<close>\<close>

definition empty_resume :: "('x, 'e, 's, 'p, 'c) ResumeData" where
  "empty_resume =
     \<lparr>contacts = Some empty_contacts, experience = None, education = None, skills = None,
      projects = None, certifications = None, achievements = None, summary = None\<rparr>"

text \<open>
  The functions that \<open>parse_resume\<close> calls and that consult the external extractor, and
  the two redaction helpers of the summary branch, are parameters of the pipeline. Each
  may raise: \<open>Inl\<close> is the exception.
\<close>

record ('x, 'e, 's, 'p, 'c) parsers =
  parse_personal_details :: "string \<Rightarrow> py_error + Contacts option"
  parse_experience_section :: "string \<Rightarrow> py_error + 'x list option"
  parse_education_section :: "string \<Rightarrow> py_error + 'e list option"
  parse_skills_section :: "string \<Rightarrow> py_error + 's option"
  parse_projects_section :: "string \<Rightarrow> py_error + 'p list option"
  extract_certifications :: "string \<Rightarrow> py_error + 'c list option"
  parse_achievements_section :: "string \<Rightarrow> py_error + string list option"
  parse_summary_section :: "string \<Rightarrow> py_error + string option"
  remove_header_content :: "string \<Rightarrow> py_error + string"
  remove_personal_info :: "string \<Rightarrow> py_error + string"

text \<open>Sequencing of steps that may raise.\<close>

definition bind_err :: "py_error + 'a \<Rightarrow> ('a \<Rightarrow> py_error + 'b) \<Rightarrow> py_error + 'b" where
  "bind_err m f = (case m of Inl e \<Rightarrow> Inl e | Inr v \<Rightarrow> f v)"

text \<open>\<open>d.get(k, dflt)\<close>\<close>

definition dict_get :: "(string \<times> string) list \<Rightarrow> string \<Rightarrow> string \<Rightarrow> string" where
  "dict_get d k dflt = (case map_of d k of Some v \<Rightarrow> v | None \<Rightarrow> dflt)"

text \<open>Truthiness of an optional list.\<close>

definition list_truthy :: "'a list option \<Rightarrow> bool" where
  "list_truthy v = (case v of None \<Rightarrow> False | Some xs \<Rightarrow> xs \<noteq> [])"

text \<open>\<open>any(keyword in normalized_text.lower() for keyword in keywords)\<close>\<close>

definition mentions_any :: "string list \<Rightarrow> string \<Rightarrow> bool" where
  "mentions_any keywords normalized_text =
     (\<exists>keyword \<in> set keywords. str_contains keyword (lower normalized_text))"

text \<open>The branches of \<open>parse_resume\<close>, one field each, in the order of the source.\<close>

definition experience_step ::
  "('x, 'e, 's, 'p, 'c) parsers \<Rightarrow> (string \<times> string) list \<Rightarrow> string \<Rightarrow> py_error + 'x list option" where
  "experience_step P sections normalized_text =
     (let experience_section = dict_get sections ''experience'' []
      in if experience_section \<noteq> [] \<and> strip experience_section \<noteq> []
         then parse_experience_section P experience_section
         else if mentions_any [''experience'', ''work'', ''employment''] normalized_text
              then parse_experience_section P normalized_text
              else Inr None)"

definition education_step ::
  "('x, 'e, 's, 'p, 'c) parsers \<Rightarrow> (string \<times> string) list \<Rightarrow> string \<Rightarrow> py_error + 'e list option" where
  "education_step P sections normalized_text =
     (let education_section = dict_get sections ''education'' []
      in if education_section \<noteq> [] \<and> strip education_section \<noteq> []
         then bind_err (parse_education_section P education_section) (\<lambda>education.
                if list_truthy education then Inr education
                else parse_education_section P normalized_text)
         else if mentions_any [''education'', ''university'', ''college'', ''degree'']
                   normalized_text
              then parse_education_section P normalized_text
              else Inr None)"

definition skills_step ::
  "('x, 'e, 's, 'p, 'c) parsers \<Rightarrow> (string \<times> string) list \<Rightarrow> py_error + 's option" where
  "skills_step P sections =
     (let skills_section = dict_get sections ''skills'' []
      in if skills_section \<noteq> [] \<and> strip skills_section \<noteq> []
         then parse_skills_section P skills_section
         else Inr None)"

definition projects_step ::
  "('x, 'e, 's, 'p, 'c) parsers \<Rightarrow> (string \<times> string) list \<Rightarrow> string \<Rightarrow> py_error + 'p list option" where
  "projects_step P sections normalized_text =
     (let projects_section = dict_get sections ''projects'' []
      in if projects_section \<noteq> [] \<and> strip projects_section \<noteq> []
         then parse_projects_section P projects_section
         else if mentions_any [''project'', ''portfolio'', ''github''] normalized_text
              then parse_projects_section P normalized_text
              else Inr None)"

definition certifications_step ::
  "('x, 'e, 's, 'p, 'c) parsers \<Rightarrow> (string \<times> string) list \<Rightarrow> string \<Rightarrow> py_error + 'c list option" where
  "certifications_step P sections normalized_text =
     (let certifications_section = strip (dict_get sections ''certifications'' [])
      in if certifications_section \<noteq> []
         then extract_certifications P certifications_section
         else if mentions_any [''certificate'', ''certification'', ''license'', ''credential'']
                   normalized_text
              then extract_certifications P normalized_text
              else Inr None)"

definition achievements_step ::
  "('x, 'e, 's, 'p, 'c) parsers \<Rightarrow> (string \<times> string) list \<Rightarrow> py_error + string list option" where
  "achievements_step P sections =
     (let achievements_section = dict_get sections ''achievements'' []
      in if achievements_section \<noteq> [] \<and> strip achievements_section \<noteq> []
         then parse_achievements_section P achievements_section
         else Inr None)"

text \<open>
  The summary branch: only the summary section is used. When the summary parser raises,
  the handler cleans the section text itself; an exception of the helpers goes on to the
  handler of \<open>parse_resume\<close>.
\<close>

definition summary_step ::
  "('x, 'e, 's, 'p, 'c) parsers \<Rightarrow> (string \<times> string) list \<Rightarrow> py_error + string option" where
  "summary_step P sections =
     (let summary_section_text = strip (dict_get sections ''summary'' [])
      in if summary_section_text \<noteq> []
         then (case parse_summary_section P summary_section_text of
                 Inr parsed \<Rightarrow> Inr parsed
               | Inl e \<Rightarrow>
                   bind_err (remove_header_content P (normalize_text summary_section_text))
                     (\<lambda>summary.
                   bind_err (remove_personal_info P summary) (\<lambda>summary.
                     (let summary = strip summary
                      in if summary = [] \<or> length (strip summary) < 10 then Inr None
                         else Inr (Some summary)))))
         else Inr None)"

text \<open>The body of the \<open>try\<close> block of \<open>parse_resume\<close>.\<close>

definition parse_resume_body ::
  "('x, 'e, 's, 'p, 'c) parsers \<Rightarrow> string \<Rightarrow> py_error + ('x, 'e, 's, 'p, 'c) ResumeData" where
  "parse_resume_body P text =
     (let normalized_text = normalize_text text
      in if normalized_text = [] \<or> length (strip normalized_text) < 10 then Inr empty_resume
         else
           bind_err (detect_sections normalized_text) (\<lambda>sections.
           bind_err (parse_personal_details P normalized_text) (\<lambda>contacts.
           bind_err (experience_step P sections normalized_text) (\<lambda>experience.
           bind_err (education_step P sections normalized_text) (\<lambda>education.
           bind_err (skills_step P sections) (\<lambda>skills.
           bind_err (projects_step P sections normalized_text) (\<lambda>projects.
           bind_err (certifications_step P sections normalized_text) (\<lambda>certifications.
           bind_err (achievements_step P sections) (\<lambda>achievements.
           bind_err (summary_step P sections) (\<lambda>summary.
             Inr \<lparr>contacts = Some (case contacts of None \<Rightarrow> empty_contacts | Some c \<Rightarrow> c),
                  experience = experience, education = education, skills = skills,
                  projects = projects, certifications = certifications,
                  achievements = achievements, summary = summary\<rparr>))))))))))"

text \<open>
  \<open>parse_resume\<close>: the \<open>except Exception\<close> handler turns every exception of the body
  into the empty record. A result \<open>Inl\<close> would be an exception that leaves the function.
\<close>

definition parse_resume ::
  "('x, 'e, 's, 'p, 'c) parsers \<Rightarrow> string \<Rightarrow> py_error + ('x, 'e, 's, 'p, 'c) ResumeData" where
  "parse_resume P text =
     (case parse_resume_body P text of
        Inr result \<Rightarrow> Inr result
      | Inl e \<Rightarrow> Inr empty_resume)"

text \<open>A text without the characters that the normalizer replaces.\<close>

definition ocr_clean :: "string \<Rightarrow> bool" where
  "ocr_clean s = (CHR ''|'' \<notin> set s \<and> CHR ''0'' \<notin> set s)"

text \<open>
  Two sets of parsers that answer alike on every text without \<open>|\<close> and \<open>0\<close>; the
  redaction helpers are the same.
\<close>

definition agree_on_clean ::
  "('x, 'e, 's, 'p, 'c) parsers \<Rightarrow> ('x, 'e, 's, 'p, 'c) parsers \<Rightarrow> bool" where
  "agree_on_clean P Q =
     ((\<forall>s. ocr_clean s \<longrightarrow> parse_personal_details P s = parse_personal_details Q s) \<and>
      (\<forall>s. ocr_clean s \<longrightarrow> parse_experience_section P s = parse_experience_section Q s) \<and>
      (\<forall>s. ocr_clean s \<longrightarrow> parse_education_section P s = parse_education_section Q s) \<and>
      (\<forall>s. ocr_clean s \<longrightarrow> parse_skills_section P s = parse_skills_section Q s) \<and>
      (\<forall>s. ocr_clean s \<longrightarrow> parse_projects_section P s = parse_projects_section Q s) \<and>
      (\<forall>s. ocr_clean s \<longrightarrow> extract_certifications P s = extract_certifications Q s) \<and>
      (\<forall>s. ocr_clean s \<longrightarrow> parse_achievements_section P s = parse_achievements_section Q s) \<and>
      (\<forall>s. ocr_clean s \<longrightarrow> parse_summary_section P s = parse_summary_section Q s) \<and>
      remove_header_content P = remove_header_content Q \<and>
      remove_personal_info P = remove_personal_info Q)"

text \<open>
  Four sets of parsers to run the pipeline on concrete inputs: one where every call
  raises, one where every call answers, one whose contact parser hands back the text it
  was given (as the address) while the section parsers find nothing, and one that
  answers like the third but whose contact parser raises on a text that still has a
  \<open>|\<close> or a \<open>0\<close>.
\<close>

definition raising_parsers :: "(unit, unit, unit, unit, unit) parsers" where
  "raising_parsers =
     \<lparr>parse_personal_details = (\<lambda>s. Inl OtherError),
      parse_experience_section = (\<lambda>s. Inl OtherError),
      parse_education_section = (\<lambda>s. Inl OtherError),
      parse_skills_section = (\<lambda>s. Inl OtherError),
      parse_projects_section = (\<lambda>s. Inl OtherError),
      extract_certifications = (\<lambda>s. Inl OtherError),
      parse_achievements_section = (\<lambda>s. Inl OtherError),
      parse_summary_section = (\<lambda>s. Inl OtherError),
      remove_header_content = (\<lambda>s. Inl OtherError),
      remove_personal_info = (\<lambda>s. Inl OtherError)\<rparr>"


definition echo_parsers :: "(unit, unit, unit, unit, unit) parsers" where
  "echo_parsers =
     \<lparr>parse_personal_details = (\<lambda>s. Inr (Some (empty_contacts\<lparr>address := Some s\<rparr>))),
      parse_experience_section = (\<lambda>s. Inr None),
      parse_education_section = (\<lambda>s. Inr None),
      parse_skills_section = (\<lambda>s. Inr None),
      parse_projects_section = (\<lambda>s. Inr None),
      extract_certifications = (\<lambda>s. Inr None),
      parse_achievements_section = (\<lambda>s. Inr None),
      parse_summary_section = (\<lambda>s. Inr None),
      remove_header_content = (\<lambda>s. Inr s),
      remove_personal_info = (\<lambda>s. Inr s)\<rparr>"

definition strict_echo_parsers :: "(unit, unit, unit, unit, unit) parsers" where
  "strict_echo_parsers =
     echo_parsers\<lparr>parse_personal_details :=
        (\<lambda>s. if ocr_clean s then Inr (Some (empty_contacts\<lparr>address := Some s\<rparr>))
             else Inl OtherError)\<rparr>"

section \<open>The text normalizer of the certification service\<close>

text \<open>
  \<open>re.sub(r, rep, s)\<close> for a pattern that matches no empty text: the matches are
  replaced from the left, without overlap.
\<close>

function re_sub_from :: "rx \<Rightarrow> string \<Rightarrow> char option \<Rightarrow> string \<Rightarrow> string" where
  "re_sub_from r rep prev [] = []"
| "re_sub_from r rep prev (c # cs) =
     (case re_match_at r prev (c # cs) of
        None \<Rightarrow> c # re_sub_from r rep (Some c) cs
      | Some m \<Rightarrow>
          if fst m = [] then c # re_sub_from r rep (Some c) cs
          else rep @ re_sub_from r rep (Some (last (fst m))) (drop (length (fst m)) (c # cs)))"
  by pat_completeness auto
termination
  by (relation "measure (\<lambda>(r, rep, prev, s). length s)") auto

definition re_sub :: "rx \<Rightarrow> string \<Rightarrow> string \<Rightarrow> string" where
  "re_sub r rep s = re_sub_from r rep None s"

text \<open>\<open>\n\s*\n\<close>\<close>

definition BLANK_LINES :: rx where
  "BLANK_LINES = Seq (rx_chr LF) (Seq (Many py_isspace) (rx_chr LF))"

text \<open>\<open>certification_extraction_service._normalize_text\<close>\<close>

definition cert_normalize_text :: "string \<Rightarrow> string" where
  "cert_normalize_text text =
     (let text = re_sub_runs py_isspace 1 '' '' text;
          text = str_replace ''0'' ''O'' (str_replace ''|'' ''I'' text);
          text = re_sub BLANK_LINES [LF] text
      in strip text)"


section \<open>Properties of the string operations\<close>

lemma str_replace_single: "str_replace [a] [b] s = map (\<lambda>c. if c = a then b else c) s"
  by (induction s) auto

lemma str_replace_absent: "old \<noteq> [] \<Longrightarrow> hd old \<notin> set s \<Longrightarrow> str_replace old new s = s"
proof (induction s)
  case Nil then show ?case by simp
next
  case (Cons c cs)
  then have "\<not> prefix old (c # cs)" by (cases old) auto
  with Cons show ?case by simp
qed

lemma set_re_sub_runs: "set (re_sub_runs C n rep s) \<subseteq> set s \<union> set rep"
proof (induction C n rep s rule: re_sub_runs.induct)
  case (1 C n rep) then show ?case by simp
next
  case (2 C n rep c cs)
  show ?case
  proof (cases "C c \<and> n \<le> length (takeWhile C (c # cs))")
    case True
    have "set (dropWhile C (c # cs)) \<subseteq> set (c # cs)" by (rule set_dropWhileD[THEN subsetI]) 
    with 2(1)[OF True] True show ?thesis by auto
  next
    case False
    with 2(2)[OF False] show ?thesis by auto
  qed
qed

lemma rstrip_decomp: "rstrip s @ rev (takeWhile py_isspace (rev s)) = s"
proof -
  have "rev (takeWhile py_isspace (rev s) @ dropWhile py_isspace (rev s)) = s"
    by simp
  then show ?thesis unfolding rstrip_def by (simp del: takeWhile_dropWhile_id)
qed

lemma lstrip_decomp: "takeWhile py_isspace s @ lstrip s = s"
  by (simp add: lstrip_def)

lemma set_strip: "set (strip s) \<subseteq> set s"
  unfolding strip_def rstrip_def lstrip_def
  by (metis set_dropWhileD set_rev subsetI)

lemma lstrip_id: "s = [] \<or> \<not> py_isspace (hd s) \<Longrightarrow> lstrip s = s"
  by (cases s) (auto simp: lstrip_def)

lemma rstrip_id: "s = [] \<or> \<not> py_isspace (last s) \<Longrightarrow> rstrip s = s"
  by (cases s rule: rev_cases) (auto simp: rstrip_def)

lemma rstrip_last: "rstrip s = [] \<or> \<not> py_isspace (last (rstrip s))"
  unfolding rstrip_def by (metis hd_dropWhile last_rev rev_is_Nil_conv)

lemma lstrip_hd: "lstrip s = [] \<or> \<not> py_isspace (hd (lstrip s))"
  unfolding lstrip_def by (metis hd_dropWhile)

lemma rstrip_hd: "rstrip s \<noteq> [] \<Longrightarrow> hd (rstrip s) = hd s"
  by (metis hd_append2 rstrip_decomp)

lemma strip_ends: "strip s = [] \<or> (\<not> py_isspace (hd (strip s)) \<and> \<not> py_isspace (last (strip s)))"
proof (cases "strip s = []")
  case True then show ?thesis by simp
next
  case False
  then have ne: "rstrip (lstrip s) \<noteq> []" by (simp add: strip_def)
  then have "lstrip s \<noteq> []" by (auto simp: rstrip_def)
  with lstrip_hd[of s] have "\<not> py_isspace (hd (lstrip s))" by simp
  with rstrip_hd[OF ne] have "\<not> py_isspace (hd (strip s))" by (simp add: strip_def)
  moreover from rstrip_last[of "lstrip s"] ne have "\<not> py_isspace (last (strip s))"
    by (simp add: strip_def)
  ultimately show ?thesis by simp
qed

lemma strip_fixed: "s = [] \<or> (\<not> py_isspace (hd s) \<and> \<not> py_isspace (last s)) \<Longrightarrow> strip s = s"
  by (auto simp: strip_def lstrip_id rstrip_id)

lemma strip_idem: "strip (strip s) = strip s"
  by (rule strip_fixed) (rule strip_ends)

lemma nds_Cons: "no_double_space (a # xs) = ((xs = [] \<or> \<not> (a = CHR '' '' \<and> hd xs = CHR '' '')) \<and> no_double_space xs)"
  by (cases xs) auto

lemma nds_append: "no_double_space (xs @ ys) \<Longrightarrow> no_double_space xs \<and> no_double_space ys"
proof
  assume a: "no_double_space (xs @ ys)"
  then show "no_double_space ys"
    by (induction xs) (auto simp: nds_Cons)
  from a show "no_double_space xs"
    by (induction xs rule: no_double_space.induct) auto
qed

lemma ntn_tl: "no_triple_newline (a # xs) \<Longrightarrow> no_triple_newline xs"
  by (cases xs rule: no_double_space.cases) auto

lemma ntn_append: "no_triple_newline (xs @ ys) \<Longrightarrow> no_triple_newline xs \<and> no_triple_newline ys"
proof
  assume a: "no_triple_newline (xs @ ys)"
  then show "no_triple_newline ys"
    by (induction xs) (auto dest: ntn_tl)
  from a show "no_triple_newline xs"
    by (induction xs rule: no_triple_newline.induct) auto
qed

lemma nds_map: "(\<And>c. (f c = CHR '' '') = (c = CHR '' '')) \<Longrightarrow> no_double_space (map f s) = no_double_space s"
  by (induction s rule: no_double_space.induct) auto

lemma ntn_map: "(\<And>c. (f c = LF) = (c = LF)) \<Longrightarrow> no_triple_newline (map f s) = no_triple_newline s"
  by (induction s rule: no_triple_newline.induct) auto

lemma nds_strip: "no_double_space s \<Longrightarrow> no_double_space (strip s)"
  by (metis lstrip_decomp rstrip_decomp nds_append strip_def)

lemma ntn_strip: "no_triple_newline s \<Longrightarrow> no_triple_newline (strip s)"
  by (metis lstrip_decomp rstrip_decomp ntn_append strip_def)

lemma collapse_blanks_Cons:
  "re_sub_runs is_blank (Suc 0) '' '' (c # cs) =
     (if is_blank c then CHR '' '' # re_sub_runs is_blank (Suc 0) '' '' (dropWhile is_blank cs) else c # re_sub_runs is_blank (Suc 0) '' '' cs)"
  by simp

lemma collapse_blanks_hd:
  "s \<noteq> [] \<Longrightarrow> \<not> is_blank (hd s) \<Longrightarrow> re_sub_runs is_blank (Suc 0) '' '' s \<noteq> [] \<and> hd (re_sub_runs is_blank (Suc 0) '' '' s) = hd s"
  by (cases s) simp_all

lemma dropWhile_hd: "dropWhile P s = [] \<or> \<not> P (hd (dropWhile P s))"
  by (metis hd_dropWhile)

lemma collapse_blanks_chars:
  "c \<in> set (re_sub_runs is_blank (Suc 0) '' '' s) \<Longrightarrow> c = CHR '' '' \<or> (\<not> is_blank c \<and> c \<in> set s)"
proof (induction s arbitrary: c rule: length_induct)
  case (1 s)
  show ?case
  proof (cases s)
    case Nil with 1 show ?thesis by simp
  next
    case (Cons d ds)
    show ?thesis
    proof (cases "is_blank d")
      case True
      have "length (dropWhile is_blank ds) < length s"
        using Cons by (simp add: length_dropWhile_le less_Suc_eq_le)
      with 1 True Cons show ?thesis
        by (auto simp del: re_sub_runs.simps simp: collapse_blanks_Cons dest: set_dropWhileD)
    next
      case False
      with 1 Cons show ?thesis
        by (auto simp del: re_sub_runs.simps simp: collapse_blanks_Cons)
    qed
  qed
qed

lemma collapse_blanks_no_tab: "TAB \<notin> set (re_sub_runs is_blank (Suc 0) '' '' s)"
  using collapse_blanks_chars[of TAB s] by (auto simp: is_blank_def)

lemma collapse_blanks_nds: "no_double_space (re_sub_runs is_blank (Suc 0) '' '' s)"
proof (induction s rule: length_induct)
  case (1 s)
  show ?case
  proof (cases s)
    case Nil then show ?thesis by simp
  next
    case (Cons d ds)
    show ?thesis
    proof (cases "is_blank d")
      case True
      let ?D = "dropWhile is_blank ds"
      have "length ?D < length s"
        using Cons by (simp add: length_dropWhile_le less_Suc_eq_le)
      with 1 have ih: "no_double_space (re_sub_runs is_blank (Suc 0) '' '' ?D)" by blast
      have "re_sub_runs is_blank (Suc 0) '' '' ?D = [] \<or> hd (re_sub_runs is_blank (Suc 0) '' '' ?D) \<noteq> CHR '' ''"
      proof (cases "?D = []")
        case True
        then have "re_sub_runs is_blank (Suc 0) '' '' ?D = []" by (simp only: re_sub_runs.simps)
        then show ?thesis ..
      next
        case False
        with dropWhile_hd[of is_blank ds] have "\<not> is_blank (hd ?D)" by blast
        with collapse_blanks_hd[OF False] show ?thesis by (auto simp: is_blank_def)
      qed
      with ih True Cons show ?thesis
        by (simp del: re_sub_runs.simps add: collapse_blanks_Cons nds_Cons)
    next
      case False
      then have "d \<noteq> CHR '' ''" by (auto simp: is_blank_def)
      moreover from 1 Cons have "no_double_space (re_sub_runs is_blank (Suc 0) '' '' ds)" by simp
      ultimately show ?thesis using False Cons
        by (simp del: re_sub_runs.simps add: collapse_blanks_Cons nds_Cons)
    qed
  qed
qed

lemma collapse_blanks_fixed:
  "TAB \<notin> set s \<Longrightarrow> no_double_space s \<Longrightarrow> re_sub_runs is_blank (Suc 0) '' '' s = s"
proof (induction s)
  case Nil then show ?case by simp
next
  case (Cons c cs)
  then have ih: "re_sub_runs is_blank (Suc 0) '' '' cs = cs" by (simp add: nds_Cons)
  show ?case
  proof (cases "is_blank c")
    case True
    with Cons.prems have c: "c = CHR '' ''" by (auto simp: is_blank_def)
    with Cons.prems have "cs = [] \<or> \<not> is_blank (hd cs)"
      by (cases cs) (auto simp: is_blank_def)
    then have "dropWhile is_blank cs = cs" by (cases cs) auto
    with ih c True show ?thesis by (simp del: re_sub_runs.simps add: collapse_blanks_Cons)
  next
    case False
    with ih show ?thesis by (simp del: re_sub_runs.simps add: collapse_blanks_Cons)
  qed
qed

lemma collapse_newlines_hd:
  "s \<noteq> [] \<Longrightarrow> re_sub_runs is_newline 3 [LF, LF] s \<noteq> [] \<and> hd (re_sub_runs is_newline 3 [LF, LF] s) = hd s"
  by (cases s) (auto simp: is_newline_def)

lemma collapse_newlines_match:
  "is_newline c \<and> 3 \<le> length (takeWhile is_newline (c # cs)) \<Longrightarrow>
   re_sub_runs is_newline 3 [LF, LF] (c # cs) = LF # LF # re_sub_runs is_newline 3 [LF, LF] (dropWhile is_newline (c # cs))"
  by (simp del: takeWhile.simps dropWhile.simps)

lemma collapse_newlines_nomatch:
  "\<not> (is_newline c \<and> 3 \<le> length (takeWhile is_newline (c # cs))) \<Longrightarrow>
   re_sub_runs is_newline 3 [LF, LF] (c # cs) = c # re_sub_runs is_newline 3 [LF, LF] cs"
  by (subst re_sub_runs.simps) (simp only: if_False)

lemma collapse_newlines_nds:
  "no_double_space s \<Longrightarrow> no_double_space (re_sub_runs is_newline 3 [LF, LF] s)"
proof (induction s rule: length_induct)
  case (1 s)
  show ?case
  proof (cases s)
    case Nil then show ?thesis by simp
  next
    case (Cons d ds)
    show ?thesis
    proof (cases "is_newline d \<and> 3 \<le> length (takeWhile is_newline (d # ds))")
      case True
      let ?D = "dropWhile is_newline (d # ds)"
      have "length ?D < length s"
        using Cons True by (simp add: length_dropWhile_le less_Suc_eq_le)
      moreover have "no_double_space ?D"
        using "1.prems" Cons nds_append[of "takeWhile is_newline (d # ds)" ?D]
        by (simp only: takeWhile_dropWhile_id)
      ultimately have "no_double_space (re_sub_runs is_newline 3 [LF, LF] ?D)" using 1 by blast
      with Cons show ?thesis
        by (simp only: collapse_newlines_match[OF True] nds_Cons) simp
    next
      case False
      from "1.prems" Cons have nd: "no_double_space ds" by (simp add: nds_Cons)
      with 1 Cons have ih: "no_double_space (re_sub_runs is_newline 3 [LF, LF] ds)" by simp
      have "re_sub_runs is_newline 3 [LF, LF] ds = [] \<or> \<not> (d = CHR '' '' \<and> hd (re_sub_runs is_newline 3 [LF, LF] ds) = CHR '' '')"
      proof (cases ds)
        case Nil then show ?thesis by simp
      next
        case (Cons e es)
        then have "hd (re_sub_runs is_newline 3 [LF, LF] ds) = e" using collapse_newlines_hd[of ds] by simp
        moreover from "1.prems" \<open>s = d # ds\<close> Cons have "\<not> (d = CHR '' '' \<and> e = CHR '' '')" by simp
        ultimately show ?thesis by simp
      qed
      with ih Cons show ?thesis
        by (simp only: collapse_newlines_nomatch[OF False] nds_Cons)
    qed
  qed
qed

lemma run3_prefix:
  "3 \<le> length (takeWhile is_newline s) \<Longrightarrow> \<exists>r. s = LF # LF # LF # r"
proof -
  assume a: "3 \<le> length (takeWhile is_newline s)"
  then obtain a1 s1 where s: "s = a1 # s1" by (cases s) auto
  with a have a1: "a1 = LF" by (auto simp: is_newline_def split: if_splits)
  with a s obtain a2 s2 where s1: "s1 = a2 # s2" by (cases s1) (auto simp: is_newline_def)
  with a s a1 have a2: "a2 = LF" by (auto simp: is_newline_def split: if_splits)
  with a s a1 s1 obtain a3 s3 where s2: "s2 = a3 # s3" by (cases s2) (auto simp: is_newline_def)
  with a s a1 s1 a2 have "a3 = LF" by (auto simp: is_newline_def split: if_splits)
  with s s1 s2 a1 a2 show ?thesis by simp
qed

lemma prefix3_run: "3 \<le> length (takeWhile is_newline (LF # LF # LF # r))"
  by (simp add: is_newline_def)

lemma ntn_Cons:
  "no_triple_newline (a # xs) = (\<not> (a = LF \<and> (\<exists>r. xs = LF # LF # r)) \<and> no_triple_newline xs)"
  by (cases xs rule: no_double_space.cases) auto

lemma collapse_newlines_fixed: "no_triple_newline s \<Longrightarrow> re_sub_runs is_newline 3 [LF, LF] s = s"
proof (induction s)
  case Nil then show ?case by simp
next
  case (Cons c cs)
  then have ih: "re_sub_runs is_newline 3 [LF, LF] cs = cs" by (simp add: ntn_Cons)
  have "\<not> 3 \<le> length (takeWhile is_newline (c # cs))"
  proof
    assume "3 \<le> length (takeWhile is_newline (c # cs))"
    then obtain r where "c # cs = LF # LF # LF # r" using run3_prefix by blast
    with Cons.prems show False by simp
  qed
  then have "re_sub_runs is_newline 3 [LF, LF] (c # cs) = c # re_sub_runs is_newline 3 [LF, LF] cs"
    by (intro collapse_newlines_nomatch) simp
  with ih show ?case by simp
qed

lemma collapse_newlines_LFLF:
  "re_sub_runs is_newline 3 [LF, LF] s = LF # LF # r \<Longrightarrow> \<exists>r'. s = LF # LF # r'"
proof (cases s)
  case Nil
  assume "re_sub_runs is_newline 3 [LF, LF] s = LF # LF # r" with Nil show ?thesis by simp
next
  case (Cons c cs)
  assume a: "re_sub_runs is_newline 3 [LF, LF] s = LF # LF # r"
  show ?thesis
  proof (cases "is_newline c \<and> 3 \<le> length (takeWhile is_newline (c # cs))")
    case True
    then obtain q where "c # cs = LF # LF # LF # q" using run3_prefix by blast
    with Cons show ?thesis by simp
  next
    case False
    with a Cons have c: "c = LF" and r: "re_sub_runs is_newline 3 [LF, LF] cs = LF # r"
      by (simp_all only: collapse_newlines_nomatch[OF False] list.inject)
    then have "cs \<noteq> []" by auto
    with collapse_newlines_hd[of cs] r have "hd cs = LF" by simp
    with \<open>cs \<noteq> []\<close> c Cons show ?thesis by (cases cs) auto
  qed
qed

lemma collapse_newlines_ntn: "no_triple_newline (re_sub_runs is_newline 3 [LF, LF] s)"
proof (induction s rule: length_induct)
  case (1 s)
  show ?case
  proof (cases s)
    case Nil then show ?thesis by simp
  next
    case (Cons d ds)
    show ?thesis
    proof (cases "is_newline d \<and> 3 \<le> length (takeWhile is_newline (d # ds))")
      case True
      let ?D = "dropWhile is_newline (d # ds)"
      let ?X = "re_sub_runs is_newline 3 [LF, LF] ?D"
      have "length ?D < length s"
        using Cons True by (simp add: length_dropWhile_le less_Suc_eq_le)
      with 1 have ih: "no_triple_newline ?X" by blast
      have hdX: "?X = [] \<or> hd ?X \<noteq> LF"
      proof (cases "?D = []")
        case True
        then have "?X = []" by (simp only: re_sub_runs.simps)
        then show ?thesis ..
      next
        case False
        with dropWhile_hd[of is_newline "d # ds"] have "\<not> is_newline (hd ?D)" by blast
        with collapse_newlines_hd[OF False] show ?thesis by (simp add: is_newline_def)
      qed
      have "re_sub_runs is_newline 3 [LF, LF] (d # ds) = LF # LF # ?X" using True by (rule collapse_newlines_match)
      moreover have "no_triple_newline (LF # LF # ?X)"
        using ih hdX by (cases ?X rule: no_double_space.cases) (auto)
      ultimately show ?thesis using Cons by simp
    next
      case False
      from 1 Cons have ih: "no_triple_newline (re_sub_runs is_newline 3 [LF, LF] ds)" by simp
      have "\<not> (d = LF \<and> (\<exists>r. re_sub_runs is_newline 3 [LF, LF] ds = LF # LF # r))"
      proof
        assume a: "d = LF \<and> (\<exists>r. re_sub_runs is_newline 3 [LF, LF] ds = LF # LF # r)"
        then obtain r' where "ds = LF # LF # r'" using collapse_newlines_LFLF by blast
        with a have "3 \<le> length (takeWhile is_newline (d # ds))" by (simp add: is_newline_def)
        with False a show False by (simp add: is_newline_def)
      qed
      moreover have "re_sub_runs is_newline 3 [LF, LF] (d # ds) = d # re_sub_runs is_newline 3 [LF, LF] ds"
        using False by (rule collapse_newlines_nomatch)
      ultimately show ?thesis using ih Cons by (simp only: ntn_Cons) simp
    qed
  qed
qed

lemma map_replace_fixed: "a \<notin> set s \<Longrightarrow> map (\<lambda>c. if c = a then b else c) s = s"
  by (induction s) auto

lemma normalize_text_fixed:
  assumes "CR \<notin> set y" "TAB \<notin> set y" "no_double_space y" "no_triple_newline y"
    "CHR ''|'' \<notin> set y" "CHR ''0'' \<notin> set y" "strip y = y"
  shows "normalize_text y = y"
proof -
  have 1: "str_replace [CR] [LF] (str_replace [CR, LF] [LF] y) = y"
    using assms(1) by (simp add: str_replace_absent)
  have 2: "re_sub_runs is_blank 1 '' '' y = y"
    using collapse_blanks_fixed[OF assms(2,3)] by simp
  have 3: "re_sub_runs is_newline 3 [LF, LF] y = y"
    using assms(4) by (rule collapse_newlines_fixed)
  have 4: "str_replace ''0'' ''O'' (str_replace ''|'' ''I'' y) = y"
    using assms(5,6) by (simp add: str_replace_absent)
  show ?thesis
    unfolding normalize_text_def Let_def 1 2 3 4 by (rule assms(7))
qed

lemma normalize_text_props:
  "CR \<notin> set (normalize_text t) \<and> TAB \<notin> set (normalize_text t) \<and>
   no_double_space (normalize_text t) \<and> no_triple_newline (normalize_text t) \<and>
   CHR ''|'' \<notin> set (normalize_text t) \<and> CHR ''0'' \<notin> set (normalize_text t)"
proof -
  define t1 where "t1 = str_replace [CR] [LF] (str_replace [CR, LF] [LF] t)"
  define t2 where "t2 = re_sub_runs is_blank (Suc 0) '' '' t1"
  define t3 where "t3 = re_sub_runs is_newline 3 [LF, LF] t2"
  define t4 where "t4 = str_replace ''0'' ''O'' (str_replace ''|'' ''I'' t3)"
  have y: "normalize_text t = strip t4"
    by (simp add: normalize_text_def t1_def t2_def t3_def t4_def)
  have t4: "t4 = map (\<lambda>c. if c = CHR ''0'' then CHR ''O'' else c)
                  (map (\<lambda>c. if c = CHR ''|'' then CHR ''I'' else c) t3)"
    by (simp only: t4_def str_replace_single)
  have cr1: "CR \<notin> set t1" by (auto simp: t1_def str_replace_single)
  have cr2: "CR \<notin> set t2" using cr1 set_re_sub_runs[of is_blank "Suc 0" "'' ''" t1]
    by (auto simp: t2_def)
  have cr3: "CR \<notin> set t3" using cr2 set_re_sub_runs[of is_newline 3 "[LF, LF]" t2]
    by (auto simp: t3_def)
  have cr4: "CR \<notin> set t4" using cr3 by (auto simp: t4)
  have tab2: "TAB \<notin> set t2" unfolding t2_def by (rule collapse_blanks_no_tab)
  have tab3: "TAB \<notin> set t3" using tab2 set_re_sub_runs[of is_newline 3 "[LF, LF]" t2]
    by (auto simp: t3_def)
  have tab4: "TAB \<notin> set t4" using tab3 by (auto simp: t4)
  have nds2: "no_double_space t2" unfolding t2_def by (rule collapse_blanks_nds)
  have nds3: "no_double_space t3" unfolding t3_def using nds2 by (rule collapse_newlines_nds)
  have nds4: "no_double_space t4" unfolding t4 using nds3 by (simp add: nds_map)
  have ntn3: "no_triple_newline t3" unfolding t3_def by (rule collapse_newlines_ntn)
  have ntn4: "no_triple_newline t4" unfolding t4 using ntn3 by (simp add: ntn_map)
  have bar4: "CHR ''|'' \<notin> set t4" by (auto simp: t4)
  have zero4: "CHR ''0'' \<notin> set t4" by (auto simp: t4)
  show ?thesis
    unfolding y using cr4 tab4 bar4 zero4 set_strip[of t4] nds_strip[OF nds4] ntn_strip[OF ntn4]
    by blast
qed


section \<open>Claims about the text normalizer\<close>

text \<open>
  Claim C5. The text normalizer is idempotent: for every input string \<open>t\<close>, normalizing
  twice gives the same text as normalizing once.
\<close>

theorem normalize_text_idempotent: "normalize_text (normalize_text t) = normalize_text t"
proof (rule normalize_text_fixed)
  show "strip (normalize_text t) = normalize_text t"
    by (simp add: normalize_text_def Let_def strip_idem)
qed (use normalize_text_props[of t] in simp_all)

theorem normalize_text_idempotent_witness:
  "normalize_text (normalize_text ''a  b\<newline>\<newline>\<newline>\<newline>c | 10 '') = ''a b\<newline>\<newline>c I 1O''"
proof -
  have "normalize_text ''a  b\<newline>\<newline>\<newline>\<newline>c | 10 '' = ''a b\<newline>\<newline>c I 1O''"
    by code_simp
  then show ?thesis
    using normalize_text_idempotent [of "''a  b\<newline>\<newline>\<newline>\<newline>c | 10 ''"] by simp
qed

section \<open>Properties of section detection\<close>

lemma section_keys: "map fst SECTION_HEADERS =
  [''summary'', ''experience'', ''education'', ''skills'', ''certifications'', ''projects'', ''achievements'']"
  by (simp add: SECTION_HEADERS_def)

lemma section_keys_distinct: "distinct (map fst SECTION_HEADERS)"
  unfolding section_keys by simp

lemma scan_variants_eq:
  "scan_variants key i normalized variants hs =
     (if section_matches variants normalized \<and> (key, i) \<notin> set hs then hs @ [(key, i)] else hs)"
  by (induction variants) (auto simp: section_matches_def)

lemma scan_sections_eq:
  "distinct (map fst table) \<Longrightarrow> \<forall>(k, j) \<in> set hs. j < i \<Longrightarrow>
   scan_sections i normalized table hs =
     hs @ map (\<lambda>(key, variants). (key, i))
            (filter (\<lambda>(key, variants). section_matches variants normalized) table)"
proof -
  have gen: "distinct (map fst table) \<Longrightarrow> \<forall>k \<in> fst ` set table. (k, i) \<notin> set hs \<Longrightarrow>
   scan_sections i normalized table hs =
     hs @ map (\<lambda>(key, variants). (key, i))
            (filter (\<lambda>(key, variants). section_matches variants normalized) table)" for hs
  proof (induction table arbitrary: hs)
    case Nil then show ?case by simp
  next
    case (Cons p table)
    obtain key variants where p: "p = (key, variants)" by (cases p)
    let ?hs' = "scan_variants key i normalized variants hs"
    have hs': "?hs' = (if section_matches variants normalized then hs @ [(key, i)] else hs)"
      using Cons.prems(2) p by (simp add: scan_variants_eq)
    have "\<forall>k \<in> fst ` set table. (k, i) \<notin> set ?hs'"
    proof
      fix k assume k: "k \<in> fst ` set table"
      with Cons.prems(1) p have "k \<noteq> key" by auto
      moreover from k Cons.prems(2) have "(k, i) \<notin> set hs" by auto
      ultimately show "(k, i) \<notin> set ?hs'" unfolding hs' by simp
    qed
    with Cons.IH[of ?hs'] Cons.prems(1) have
      "scan_sections i normalized table ?hs' =
        ?hs' @ map (\<lambda>(key, variants). (key, i))
            (filter (\<lambda>(key, variants). section_matches variants normalized) table)" by simp
    then show ?case unfolding p by (simp add: hs')
  qed
  assume "distinct (map fst table)" "\<forall>(k, j) \<in> set hs. j < i"
  then show ?thesis by (intro gen) auto
qed

lemma scan_lines_eq:
  "\<forall>(k, j) \<in> set hs. j < i \<Longrightarrow>
   scan_lines i lines hs = hs @ concat (map line_headers (enumerate i lines))"
proof (induction lines arbitrary: i hs)
  case Nil then show ?case by simp
next
  case (Cons line lines)
  let ?n = "lower (strip line)"
  show ?case
  proof (cases "?n = []")
    case True
    from Cons.prems have "\<forall>(k, j) \<in> set hs. j < Suc i" by auto
    from Cons.IH[OF this] True show ?thesis by (simp add: line_headers_def)
  next
    case False
    let ?hs' = "scan_sections i ?n SECTION_HEADERS hs"
    have hs': "?hs' = hs @ line_headers (i, line)"
      using scan_sections_eq[OF section_keys_distinct Cons.prems, of ?n] False
      by (simp add: line_headers_def)
    have "\<forall>(k, j) \<in> set ?hs'. j < Suc i"
      unfolding hs' using Cons.prems by (auto simp: line_headers_def Let_def split: if_splits)
    from Cons.IH[OF this] False show ?thesis by (simp add: hs')
  qed
qed

lemma find_headers_eq: "find_headers lines = concat (map line_headers (enumerate 0 lines))"
  unfolding find_headers_def using scan_lines_eq[of "[]" 0 lines] by simp

lemma find_headers_keys: "(k, i) \<in> set (find_headers lines) \<Longrightarrow> k \<in> set (map fst SECTION_HEADERS)"
  unfolding find_headers_eq by (force simp: line_headers_def Let_def split: if_splits)

lemma section_spans_keys: "fst ` set (section_spans n hs) = fst ` set hs"
  by (induction n hs rule: section_spans.induct) auto

lemma merge_spans_total:
  "\<forall>k \<in> fst ` set spans. k \<in> fst ` set sections \<Longrightarrow>
   \<exists>m. merge_spans lines spans sections = Inr m \<and> map fst m = map fst sections \<and>
       (\<forall>k. k \<notin> fst ` set spans \<longrightarrow> map_of m k = map_of sections k)"
proof (induction spans arbitrary: sections)
  case Nil then show ?case by simp
next
  case (Cons sp spans)
  obtain key start_line end_line where sp: "sp = (key, start_line, end_line)"
    by (cases sp)
  from Cons.prems sp have key: "key \<in> fst ` set sections" by simp
  then obtain cur where cur: "map_of sections key = Some cur"
    by (metis domD dom_map_of_conv_image_fst)
  let ?body = "strip (str_join [LF] (py_slice lines start_line end_line))"
  let ?s' = "AList.update key (if cur \<noteq> [] then cur @ [LF, LF] @ ?body else ?body) sections"
  have keys: "map fst ?s' = map fst sections"
    using key by (simp add: update_keys)
  then have "fst ` set ?s' = fst ` set sections" by (metis list.set_map)
  with Cons.prems have "\<forall>k \<in> fst ` set spans. k \<in> fst ` set ?s'" by simp
  from Cons.IH[OF this] obtain m where m: "merge_spans lines spans ?s' = Inr m"
    "map fst m = map fst ?s'" "\<forall>k. k \<notin> fst ` set spans \<longrightarrow> map_of m k = map_of ?s' k"
    by blast
  have "merge_spans lines (sp # spans) sections = Inr m"
    unfolding sp using cur m(1) by (simp add: Let_def)
  moreover have "\<forall>k. k \<notin> fst ` set (sp # spans) \<longrightarrow> map_of m k = map_of sections k"
    using m(3) sp by (auto simp: update_conv')
  ultimately show ?case using m(2) keys by simp
qed


lemma in_concat_map: "x \<in> set xs \<Longrightarrow> y \<in> set (f x) \<Longrightarrow> y \<in> set (concat (map f xs))"
  by auto

lemma shared_synonyms_member:
  assumes "(k1, vs1) \<in> set SECTION_HEADERS" "(k2, vs2) \<in> set SECTION_HEADERS" "k1 \<noteq> k2"
   "v \<in> set vs1" "v \<in> set vs2" 
  shows "(k1, k2, v) \<in> set shared_synonyms"
  unfolding shared_synonyms_def
proof (rule in_concat_map[OF assms(1)], simp only: prod.case, rule in_concat_map[OF assms(2)])
  show "(k1, k2, v) \<in> set (case (k2, vs2) of (k2, vs2) \<Rightarrow>
          if k1 \<noteq> k2 then map (\<lambda>v. (k1, k2, v)) (filter (\<lambda>v. v \<in> set vs2) vs1) else [])"
    using assms(3,4,5) by simp
qed

lemma shared_synonyms_value:
  "shared_synonyms = [(''certifications'', ''achievements'', ''achievements''),
                      (''achievements'', ''certifications'', ''achievements'')]"
  by code_simp

lemma certifications_entry: "(''certifications'', CERTIFICATE_HEADINGS) \<in> set SECTION_HEADERS"
  unfolding SECTION_HEADERS_def by simp

lemma achievements_entry: "(''achievements'', ACHIEVEMENT_HEADINGS) \<in> set SECTION_HEADERS"
  unfolding SECTION_HEADERS_def by simp

lemma achievements_in_certificates: "''achievements'' \<in> set CERTIFICATE_HEADINGS"
  unfolding CERTIFICATE_HEADINGS_def by simp

lemma achievements_in_achievements: "''achievements'' \<in> set ACHIEVEMENT_HEADINGS"
  unfolding ACHIEVEMENT_HEADINGS_def by simp

lemma example_lines:
  "splitlines ''Achievements\<newline>Prize'' = [''Achievements'', ''Prize'']"
  by code_simp

lemma example_headers:
  "find_headers [''Achievements'', ''Prize''] = [(''certifications'', 0), (''achievements'', 0)]"
  by code_simp


lemma example_sections:
  "detect_sections ''Achievements\<newline>Prize'' =
     Inr [(''summary'', []), (''experience'', []), (''education'', []), (''skills'', []),
          (''certifications'', []), (''projects'', []), (''achievements'', ''Prize'')]"
  unfolding detect_sections_def Let_def example_lines example_headers
  by (simp add: SECTION_HEADERS_def py_slice_def strip_def lstrip_def rstrip_def py_isspace_def)

lemma map_of_const: "k \<in> set ks \<Longrightarrow> map_of (map (\<lambda>k. (k, v)) ks) k = Some v"
  by (induction ks) auto

lemma detect_sections_keys:
  "\<exists>m. detect_sections t = Inr m \<and>
       map fst m = map fst SECTION_HEADERS \<and>
       (\<forall>k \<in> set (map fst m). k \<notin> fst ` set (find_headers (splitlines t)) \<longrightarrow>
            map_of m k = Some []) \<and>
       (find_headers (splitlines t) = [] \<longrightarrow> (\<forall>k \<in> set (map fst m). map_of m k = Some []))"
proof -
  let ?lines = "splitlines t"
  let ?init = "map (\<lambda>k. (k, [])) (map fst SECTION_HEADERS) :: (string \<times> string) list"
  let ?hs = "find_headers ?lines"
  let ?spans = "section_spans (length ?lines) (sort_key snd ?hs)"
  have init_keys: "map fst ?init = map fst SECTION_HEADERS" by (simp add: comp_def)
  have init_val: "\<forall>k \<in> set (map fst ?init). map_of ?init k = Some []"
  proof
    fix k assume "k \<in> set (map fst ?init)"
    then have "k \<in> set (map fst SECTION_HEADERS)" by (simp only: init_keys)
    then show "map_of ?init k = Some []" by (rule map_of_const)
  qed
  have span_keys: "fst ` set ?spans = fst ` set ?hs"
    by (simp add: section_spans_keys)
  have "\<forall>k \<in> fst ` set ?spans. k \<in> fst ` set ?init"
  proof
    fix k assume "k \<in> fst ` set ?spans"
    then obtain i where "(k, i) \<in> set ?hs" unfolding span_keys by force
    then have "k \<in> set (map fst SECTION_HEADERS)" by (rule find_headers_keys)
    then show "k \<in> fst ` set ?init" using init_keys by (metis list.set_map)
  qed
  from merge_spans_total[OF this, of ?lines] obtain m where
    m: "merge_spans ?lines ?spans ?init = Inr m" "map fst m = map fst ?init"
       "\<forall>k. k \<notin> fst ` set ?spans \<longrightarrow> map_of m k = map_of ?init k"
    by blast
  show ?thesis
  proof (cases "?hs = []")
    case True
    then have "detect_sections t = Inr ?init" by (simp add: detect_sections_def)
    with init_keys init_val show ?thesis by (intro exI[of _ ?init] conjI) blast+
  next
    case False
    then have 1: "detect_sections t = Inr m" using m(1) by (simp add: detect_sections_def Let_def)
    have 2: "map fst m = map fst SECTION_HEADERS" using m(2) init_keys by simp
    have 3: "\<forall>k \<in> set (map fst m). k \<notin> fst ` set ?hs \<longrightarrow> map_of m k = Some []"
    proof (intro ballI impI)
      fix k assume k: "k \<in> set (map fst m)" "k \<notin> fst ` set ?hs"
      then have "map_of m k = map_of ?init k" using m(3) span_keys by simp
      moreover from k(1) have "k \<in> set (map fst ?init)" by (simp only: m(2))
      ultimately show "map_of m k = Some []" using init_val by metis
    qed
    from 1 2 3 False show ?thesis by (intro exI[of _ m] conjI) blast+
  qed
qed

section \<open>Claims about the section-header table and section detection\<close>

text \<open>
  Claim C2, amended. The heading lists of the seven sections are pairwise disjoint with
  one exception: a synonym that occurs in the lists of two different sections is
  \<open>achievements\<close>, and the two sections are \<open>certifications\<close> and
  \<open>achievements\<close>.
\<close>

theorem synonyms_disjoint_except_achievements:
  assumes "(k1, vs1) \<in> set SECTION_HEADERS" "(k2, vs2) \<in> set SECTION_HEADERS" "k1 \<noteq> k2"
    "v \<in> set vs1" "v \<in> set vs2"
  shows "v = ''achievements'' \<and> {k1, k2} = {''certifications'', ''achievements''}"
proof -
  from assms have "(k1, k2, v) \<in> set shared_synonyms" by (rule shared_synonyms_member)
  then have "(k1, k2, v) = (''certifications'', ''achievements'', ''achievements'') \<or>
             (k1, k2, v) = (''achievements'', ''certifications'', ''achievements'')"
    unfolding shared_synonyms_value by (simp only: list.set insert_iff empty_iff) blast
  then show ?thesis
  proof
    assume "(k1, k2, v) = (''certifications'', ''achievements'', ''achievements'')"
    then have "k1 = ''certifications''" "k2 = ''achievements''" "v = ''achievements''"
      by (simp_all only: prod.inject)
    then show ?thesis by (simp only:) 
  next
    assume "(k1, k2, v) = (''achievements'', ''certifications'', ''achievements'')"
    then have "k1 = ''achievements''" "k2 = ''certifications''" "v = ''achievements''"
      by (simp_all only: prod.inject)
    then show ?thesis by (simp only: insert_commute) 
  qed
qed

text \<open>
  The lists are not pairwise disjoint as they stand: \<open>achievements\<close> is both a
  certificate heading and an achievement heading.
\<close>

theorem synonyms_shared_counterexample:
  "(''certifications'', CERTIFICATE_HEADINGS) \<in> set SECTION_HEADERS \<and>
   (''achievements'', ACHIEVEMENT_HEADINGS) \<in> set SECTION_HEADERS \<and>
   ''achievements'' \<in> set CERTIFICATE_HEADINGS \<and>
   ''achievements'' \<in> set ACHIEVEMENT_HEADINGS"
  using certifications_entry achievements_entry
    achievements_in_certificates achievements_in_achievements
  by (intro conjI)

theorem synonyms_disjoint_except_achievements_witness:
  "(''certifications'', CERTIFICATE_HEADINGS) \<in> set SECTION_HEADERS \<and>
   (''achievements'', ACHIEVEMENT_HEADINGS) \<in> set SECTION_HEADERS \<and>
   ''certifications'' \<noteq> ''achievements'' \<and>
   ''achievements'' \<in> set CERTIFICATE_HEADINGS \<and>
   ''achievements'' \<in> set ACHIEVEMENT_HEADINGS \<and>
   {''certifications'', ''achievements''} = {''certifications'', ''achievements''}"
proof -
  have ne: "''certifications'' \<noteq> ''achievements''" by simp
  from synonyms_disjoint_except_achievements
         [OF certifications_entry achievements_entry ne
             achievements_in_certificates achievements_in_achievements]
  show ?thesis
    using certifications_entry achievements_entry ne
      achievements_in_certificates achievements_in_achievements by blast
qed

text \<open>
  Claim C3, amended. The heading matches that \<open>detect_sections\<close> records are, line
  by line, one match for every section that has a synonym matching the line, in the
  order of the section table: the \<open>break\<close> ends the loop over the synonyms of one
  section only, and a line that matches two sections is recorded for both.
\<close>

theorem every_matching_section_recorded:
  "find_headers lines = concat (map line_headers (enumerate 0 lines))"
  by (rule find_headers_eq)

text \<open>
  A line that matches two sections: \<open>Achievements\<close> is recorded for
  \<open>certifications\<close> and then for \<open>achievements\<close>. Both matches have the same line
  index, so the body after the line goes to the later one.
\<close>

theorem first_section_wins_counterexample:
  "find_headers (splitlines ''Achievements\<newline>Prize'') =
     [(''certifications'', 0), (''achievements'', 0)] \<and>
   detect_sections ''Achievements\<newline>Prize'' =
     Inr [(''summary'', []), (''experience'', []), (''education'', []), (''skills'', []),
          (''certifications'', []), (''projects'', []), (''achievements'', ''Prize'')]"
  by (simp only: example_lines example_headers example_sections)

theorem every_matching_section_recorded_witness:
  "concat (map line_headers (enumerate 0 [''Achievements'', ''Prize''])) =
     [(''certifications'', 0), (''achievements'', 0)]"
  using every_matching_section_recorded [of "[''Achievements'', ''Prize'']"]
  by (simp only: example_headers)

text \<open>
  Claim C6. \<open>detect_sections\<close> returns, for every input text, a mapping with
  exactly the seven keys summary, experience, education, skills, certifications,
  projects and achievements (no \<open>KeyError\<close> is raised); a section for which no heading
  was found has the empty string as its value, and when no heading is found at all every
  value is empty.
\<close>

theorem detect_sections_total:
  "\<exists>m. detect_sections t = Inr m \<and>
       map fst m = [''summary'', ''experience'', ''education'', ''skills'',
                    ''certifications'', ''projects'', ''achievements''] \<and>
       (\<forall>k \<in> set (map fst m). k \<notin> fst ` set (find_headers (splitlines t)) \<longrightarrow>
            map_of m k = Some []) \<and>
       (find_headers (splitlines t) = [] \<longrightarrow> (\<forall>k \<in> set (map fst m). map_of m k = Some []))"
  using detect_sections_keys [of t] by (simp only: section_keys)

theorem detect_sections_total_witness:
  "\<exists>m. detect_sections [] = Inr m \<and>
       map fst m = [''summary'', ''experience'', ''education'', ''skills'',
                    ''certifications'', ''projects'', ''achievements''] \<and>
       (\<forall>k \<in> set (map fst m). map_of m k = Some [])"
proof -
  have e: "find_headers (splitlines []) = []" by (simp add: splitlines_def find_headers_def)
  from detect_sections_total [of "[]"] obtain m where
    m: "detect_sections [] = Inr m"
    "map fst m = [''summary'', ''experience'', ''education'', ''skills'',
                    ''certifications'', ''projects'', ''achievements'']"
    "find_headers (splitlines []) = [] \<longrightarrow> (\<forall>k \<in> set (map fst m). map_of m k = Some [])"
    by (elim exE conjE)
  from m(3) e have "\<forall>k \<in> set (map fst m). map_of m k = Some []" by (rule mp)
  with m(1,2) show ?thesis by (intro exI[of _ m] conjI)
qed



section \<open>Properties of the pipeline\<close>

lemma bind_err_Inr: "bind_err m f = Inr r \<Longrightarrow> \<exists>v. m = Inr v \<and> f v = Inr r"
  by (cases m) (auto simp: bind_err_def)

lemma normalize_text_stripped: "strip (normalize_text t) = normalize_text t"
  by (simp add: normalize_text_def Let_def strip_idem)

lemma parse_resume_returns: "\<exists>r. parse_resume P t = Inr r"
  unfolding parse_resume_def by (cases "parse_resume_body P t") auto

lemma parse_resume_short:
  "length (normalize_text t) < 10 \<Longrightarrow> parse_resume P t = Inr empty_resume"
  by (simp add: parse_resume_def parse_resume_body_def Let_def normalize_text_stripped)

lemma parse_resume_raise:
  "parse_resume_body P t = Inl e \<Longrightarrow> parse_resume P t = Inr empty_resume"
  by (simp add: parse_resume_def)




lemma short_example: "length (strip (normalize_text ''J. Doe  '')) < 10"
  by code_simp

lemma example_normalized: "normalize_text ''Achievements\<newline>Prize'' = ''Achievements\<newline>Prize''"
  by code_simp

lemma example_body_raises:
  "parse_resume_body raising_parsers ''Achievements\<newline>Prize'' = Inl OtherError"
  unfolding parse_resume_body_def Let_def example_normalized example_sections
  by (simp add: bind_err_def raising_parsers_def strip_def lstrip_def rstrip_def py_isspace_def)





lemma splitlines_from_chars:
  "l \<in> set (splitlines_from cur s) \<Longrightarrow> set l \<subseteq> set cur \<union> set s"
proof (induction cur s arbitrary: l rule: splitlines_from.induct)
  case (1 cur)
  then show ?case by (auto split: if_splits)
next
  case (2 cur c cs)
  show ?case
  proof (cases "c = CR")
    case True
    show ?thesis
    proof (cases cs)
      case Nil
      with 2(5) True show ?thesis by auto
    next
      case (Cons d ds)
      show ?thesis
      proof (cases "d = LF")
        case dl: True
        from 2(5) True Cons dl have "l = cur \<or> l \<in> set (splitlines_from [] ds)" by auto
        then show ?thesis
        proof
          assume "l = cur" then show ?thesis by auto
        next
          assume "l \<in> set (splitlines_from [] ds)"
          from 2(1)[OF True Cons dl this] Cons show ?thesis by auto
        qed
      next
        case dl: False
        from 2(5) True Cons dl have "l = cur \<or> l \<in> set (splitlines_from [] (d # ds))" by auto
        then show ?thesis
        proof
          assume "l = cur" then show ?thesis by auto
        next
          assume "l \<in> set (splitlines_from [] (d # ds))"
          from 2(2)[OF True Cons dl this] Cons show ?thesis by auto
        qed
      qed
    qed
  next
    case False
    show ?thesis
    proof (cases "is_linebreak c")
      case True
      from 2(5) False True have "l = cur \<or> l \<in> set (splitlines_from [] cs)" by auto
      then show ?thesis
      proof
        assume "l = cur" then show ?thesis by auto
      next
        assume "l \<in> set (splitlines_from [] cs)"
        from 2(3)[OF False True this] show ?thesis by auto
      qed
    next
      case nb: False
      from 2(5) False nb have "l \<in> set (splitlines_from (cur @ [c]) cs)" by auto
      from 2(4)[OF False nb this] show ?thesis by auto
    qed
  qed
qed

lemma splitlines_chars: "l \<in> set (splitlines s) \<Longrightarrow> set l \<subseteq> set s"
  unfolding splitlines_def using splitlines_from_chars[of l "[]" s] by simp

lemma str_join_chars: "set (str_join sep xs) \<subseteq> set sep \<union> \<Union> (set ` set xs)"
  by (induction sep xs rule: str_join.induct) auto

lemma py_slice_subset: "set (py_slice xs a b) \<subseteq> set xs"
  unfolding py_slice_def by (meson in_set_dropD in_set_takeD subsetI)

lemma update_values: "(k', v') \<in> set (AList.update k v al) \<Longrightarrow> (k', v') = (k, v) \<or> (k', v') \<in> set al"
  by (induction al) (auto split: if_splits)

lemma merge_spans_chars:
  assumes "merge_spans lines spans sections = Inr m"
    and "\<forall>(k, v) \<in> set sections. set v \<subseteq> A"
    and "\<forall>l \<in> set lines. set l \<subseteq> A" and "LF \<in> A"
  shows "\<forall>(k, v) \<in> set m. set v \<subseteq> A"
  using assms(1,2)
proof (induction spans arbitrary: sections)
  case Nil then show ?case by simp
next
  case (Cons sp spans)
  obtain key a b where sp: "sp = (key, a, b)" by (cases sp)
  let ?body = "strip (str_join [LF] (py_slice lines a b))"
  from Cons.prems(1) sp obtain cur where cur: "map_of sections key = Some cur"
    by (cases "map_of sections key") (auto simp: Let_def)
  let ?v = "if cur \<noteq> [] then cur @ [LF, LF] @ ?body else ?body"
  from Cons.prems(1) sp cur have rec: "merge_spans lines spans (AList.update key ?v sections) = Inr m"
    by (simp add: Let_def)
  have body: "set ?body \<subseteq> A"
  proof -
    have "set (str_join [LF] (py_slice lines a b)) \<subseteq> A"
      using str_join_chars[of "[LF]" "py_slice lines a b"] py_slice_subset[of lines a b] assms(3,4)
      by auto
    with set_strip[of "str_join [LF] (py_slice lines a b)"] show ?thesis by blast
  qed
  from cur have "(key, cur) \<in> set sections" by (rule map_of_SomeD)
  with Cons.prems(2) have "set cur \<subseteq> A" by auto
  with body assms(4) have v: "set ?v \<subseteq> A" by auto
  have "\<forall>(k, v) \<in> set (AList.update key ?v sections). set v \<subseteq> A"
  proof (clarify)
    fix k' v' x assume "(k', v') \<in> set (AList.update key ?v sections)" "x \<in> set v'"
    with update_values[of k' v' key ?v sections] v Cons.prems(2) show "x \<in> A" by auto
  qed
  from Cons.IH[OF rec this] show ?case .
qed

lemma detect_sections_chars:
  assumes "detect_sections s = Inr secs" "(k, v) \<in> set secs"
  shows "set v \<subseteq> insert LF (set s)"
proof -
  let ?init = "map (\<lambda>k. (k, [])) (map fst SECTION_HEADERS) :: (string \<times> string) list"
  have init: "\<forall>(k, v) \<in> set ?init. set v \<subseteq> insert LF (set s)" by auto
  have lines: "\<forall>l \<in> set (splitlines s). set l \<subseteq> insert LF (set s)"
    using splitlines_chars by blast
  show ?thesis
  proof (cases "find_headers (splitlines s) = []")
    case True
    with assms have "(k, v) \<in> set ?init" by (simp add: detect_sections_def)
    with init show ?thesis by blast
  next
    case False
    with assms(1) have "merge_spans (splitlines s)
        (section_spans (length (splitlines s)) (sort_key snd (find_headers (splitlines s)))) ?init = Inr secs"
      by (simp add: detect_sections_def Let_def)
    from merge_spans_chars[OF this init lines] assms(2) show ?thesis by blast
  qed
qed

lemma ocr_clean_subset: "ocr_clean s \<Longrightarrow> set v \<subseteq> insert LF (set s) \<Longrightarrow> ocr_clean v"
  unfolding ocr_clean_def by auto

lemma ocr_clean_strip: "ocr_clean s \<Longrightarrow> ocr_clean (strip s)"
  unfolding ocr_clean_def using set_strip[of s] by auto

lemma ocr_clean_normalize: "ocr_clean (normalize_text t)"
  unfolding ocr_clean_def using normalize_text_props[of t] by simp

lemma ocr_clean_section:
  assumes "detect_sections s = Inr secs" "ocr_clean s"
  shows "ocr_clean (dict_get secs k [])"
proof (cases "map_of secs k")
  case None
  then show ?thesis by (simp add: dict_get_def ocr_clean_def)
next
  case (Some v)
  then have "(k, v) \<in> set secs" by (rule map_of_SomeD)
  from detect_sections_chars[OF assms(1) this] assms(2) have "ocr_clean v"
    by (rule ocr_clean_subset[rotated])
  with Some show ?thesis by (simp add: dict_get_def)
qed

lemma steps_agree:
  assumes ag: "agree_on_clean P Q" and secs: "detect_sections n = Inr secs" and n: "ocr_clean n"
  shows "experience_step P secs n = experience_step Q secs n"
    and "education_step P secs n = education_step Q secs n"
    and "skills_step P secs = skills_step Q secs"
    and "projects_step P secs n = projects_step Q secs n"
    and "certifications_step P secs n = certifications_step Q secs n"
    and "achievements_step P secs = achievements_step Q secs"
    and "summary_step P secs = summary_step Q secs"
    and "parse_personal_details P n = parse_personal_details Q n"
proof -
  note c = ocr_clean_section[OF secs n]
  note cs = ocr_clean_strip[OF ocr_clean_section[OF secs n]]
  from ag have a:
    "\<And>s. ocr_clean s \<Longrightarrow> parse_personal_details P s = parse_personal_details Q s"
    "\<And>s. ocr_clean s \<Longrightarrow> parse_experience_section P s = parse_experience_section Q s"
    "\<And>s. ocr_clean s \<Longrightarrow> parse_education_section P s = parse_education_section Q s"
    "\<And>s. ocr_clean s \<Longrightarrow> parse_skills_section P s = parse_skills_section Q s"
    "\<And>s. ocr_clean s \<Longrightarrow> parse_projects_section P s = parse_projects_section Q s"
    "\<And>s. ocr_clean s \<Longrightarrow> extract_certifications P s = extract_certifications Q s"
    "\<And>s. ocr_clean s \<Longrightarrow> parse_achievements_section P s = parse_achievements_section Q s"
    "\<And>s. ocr_clean s \<Longrightarrow> parse_summary_section P s = parse_summary_section Q s"
    "remove_header_content P = remove_header_content Q"
    "remove_personal_info P = remove_personal_info Q"
    unfolding agree_on_clean_def by blast+
  show "experience_step P secs n = experience_step Q secs n"
    by (simp add: experience_step_def Let_def a(2)[OF n] a(2)[OF c])
  show "education_step P secs n = education_step Q secs n"
    by (simp add: education_step_def Let_def a(3)[OF n] a(3)[OF c] cong: if_cong)
  show "skills_step P secs = skills_step Q secs"
    by (simp add: skills_step_def Let_def a(4)[OF c])
  show "projects_step P secs n = projects_step Q secs n"
    by (simp add: projects_step_def Let_def a(5)[OF n] a(5)[OF c])
  show "certifications_step P secs n = certifications_step Q secs n"
    by (simp add: certifications_step_def Let_def a(6)[OF n] a(6)[OF cs])
  show "achievements_step P secs = achievements_step Q secs"
    by (simp add: achievements_step_def Let_def a(7)[OF c])
  show "summary_step P secs = summary_step Q secs"
    unfolding summary_step_def Let_def a(8)[OF cs] a(9) a(10) ..
  show "parse_personal_details P n = parse_personal_details Q n"
    by (rule a(1)[OF n])
qed

lemma body_agree:
  assumes "agree_on_clean P Q"
  shows "parse_resume_body P t = parse_resume_body Q t"
proof (cases "detect_sections (normalize_text t)")
  case (Inl e)
  then show ?thesis by (simp add: parse_resume_body_def Let_def bind_err_def)
next
  case (Inr secs)
  note s = steps_agree[OF assms Inr ocr_clean_normalize]
  have b: "\<And>v f. bind_err (Inr v :: py_error + (string \<times> string) list) f = f v"
    by (simp add: bind_err_def)
  show ?thesis
    unfolding parse_resume_body_def Let_def Inr b
    by (simp add: s)
qed

lemma phone_example_valid:
  "validate_phone (Some ''9876543210'') = Some ''9876543210'' \<and>
   validate_phone (Some ''987654321O'') = None"
  by code_simp

lemma normalize_date_refines: "normalize_date d = spec_normalize_date d"
  unfolding normalize_date_def spec_normalize_date_def date_patterns_def clean_date_def
    exact_mm_yyyy_def iso_yyyy_mm_def month_name_year_def dd_mm_yyyy_def bare_year_def
    embedded_mm_yyyy_def Let_def
  by (simp split: option.splits)

lemma date_examples:
  "normalize_date (Some ''March 2023'') = Some ''03/2023''"
  "normalize_date (Some ''2023-03'') = Some ''03/2023''"
  "normalize_date (Some ''15/03/2023'') = Some ''03/2023''"
  "normalize_date (Some ''2023'') = Some ''01/2023''"
  "normalize_date (Some ''not a date'') = None"
  "exact_mm_yyyy ''13/2023'' = None"
  "normalize_date (Some ''13/2023'') = Some ''01/2023''"
  by code_simp+

lemma re_sub_from_chars: "set (re_sub_from r rep prev s) \<subseteq> set s \<union> set rep"
proof (induction r rep prev s rule: re_sub_from.induct)
  case (1 r rep prev)
  then show ?case by simp
next
  case (2 r rep prev c cs)
  show ?case
  proof (cases "re_match_at r prev (c # cs)")
    case None
    with 2(1)[OF None] show ?thesis by auto
  next
    case (Some m)
    show ?thesis
    proof (cases "fst m = []")
      case True
      with 2(2)[OF Some True] Some show ?thesis by auto
    next
      case False
      have "set (drop (length (fst m)) (c # cs)) \<subseteq> set (c # cs)"
        by (rule set_drop_subset)
      with 2(3)[OF Some False] Some False show ?thesis by auto
    qed
  qed
qed

lemma cert_normalize_text_clean:
  "CHR ''|'' \<notin> set (cert_normalize_text t) \<and> CHR ''0'' \<notin> set (cert_normalize_text t)"
proof -
  define t1 where "t1 = re_sub_runs py_isspace 1 '' '' t"
  define t2 where "t2 = str_replace ''0'' ''O'' (str_replace ''|'' ''I'' t1)"
  define t3 where "t3 = re_sub BLANK_LINES [LF] t2"
  have y: "cert_normalize_text t = strip t3"
    by (simp add: cert_normalize_text_def t1_def t2_def t3_def)
  have "CHR ''|'' \<notin> set t2 \<and> CHR ''0'' \<notin> set t2"
    by (auto simp: t2_def str_replace_single)
  with re_sub_from_chars[of BLANK_LINES "[LF]" None t2]
  have "CHR ''|'' \<notin> set t3 \<and> CHR ''0'' \<notin> set t3"
    unfolding t3_def re_sub_def by auto
  with set_strip[of t3] show ?thesis unfolding y by auto
qed

section \<open>Properties of the regular expressions and of the date normalizer\<close>

lemma rx_soundI:
  "(\<And>p s caps p' s' caps'. (p', s', caps') \<in> set (rx_run r (p, s, caps)) \<Longrightarrow>
      \<exists>u. s = u @ s' \<and> \<Phi> u caps caps') \<Longrightarrow> rx_sound r \<Phi>"
  unfolding rx_sound_def by blast

lemma rx_soundD:
  "rx_sound r \<Phi> \<Longrightarrow> (p', s', caps') \<in> set (rx_run r (p, s, caps)) \<Longrightarrow>
     \<exists>u. s = u @ s' \<and> \<Phi> u caps caps'"
  unfolding rx_sound_def by blast

lemma rx_sound_weaken:
  "rx_sound r \<Phi> \<Longrightarrow> (\<And>u c c'. \<Phi> u c c' \<Longrightarrow> \<Psi> u c c') \<Longrightarrow> rx_sound r \<Psi>"
  unfolding rx_sound_def by blast

lemma rx_sound_Cls: "rx_sound (Cls C) (\<lambda>u c c'. (\<exists>x. u = [x] \<and> C x) \<and> c' = c)"
  by (rule rx_soundI) (auto split: list.splits if_splits)

lemma rx_sound_Eps: "rx_sound Eps (\<lambda>u c c'. u = [] \<and> c' = c)"
  by (rule rx_soundI) auto

lemma rx_sound_Bol: "rx_sound Bol (\<lambda>u c c'. u = [] \<and> c' = c)"
  by (rule rx_soundI) (auto split: if_splits)

lemma rx_sound_Eol: "rx_sound Eol (\<lambda>u c c'. u = [] \<and> c' = c)"
  by (rule rx_soundI) (auto split: if_splits)

lemma rx_sound_Wordb: "rx_sound Wordb (\<lambda>u c c'. u = [] \<and> c' = c)"
  by (rule rx_soundI) (auto split: if_splits)

lemma take_takeWhile_all: "k \<le> length (takeWhile C s) \<Longrightarrow> list_all C (take k s)"
proof -
  assume k: "k \<le> length (takeWhile C s)"
  have "take k s = take k (takeWhile C s @ dropWhile C s)" by simp
  also have "\<dots> = take k (takeWhile C s)" using k by (simp del: takeWhile_dropWhile_id)
  finally have "set (take k s) \<subseteq> set (takeWhile C s)" by (simp add: set_take_subset)
  then show ?thesis by (auto simp: list_all_iff dest: set_takeWhileD)
qed

lemma rx_sound_Many: "rx_sound (Many C) (\<lambda>u c c'. list_all C u \<and> c' = c)"
proof (rule rx_soundI)
  fix p s caps p' s' caps'
  assume "(p', s', caps') \<in> set (rx_run (Many C) (p, s, caps))"
  then obtain k where k: "k \<le> length (takeWhile C s)" "s' = drop k s" "caps' = caps"
    by (auto simp: less_Suc_eq_le simp del: upt_Suc)
  have "s = take k s @ s'" using k(2) by simp
  with take_takeWhile_all[OF k(1)] k(3) show "\<exists>u. s = u @ s' \<and> list_all C u \<and> caps' = caps"
    by blast
qed

lemma rx_sound_Seq:
  assumes "rx_sound a \<Phi>" "rx_sound b \<Psi>"
  shows "rx_sound (Seq a b)
           (\<lambda>u c c''. \<exists>u1 u2 c'. u = u1 @ u2 \<and> \<Phi> u1 c c' \<and> \<Psi> u2 c' c'')"
proof (rule rx_soundI)
  fix p s caps p' s' caps'
  assume "(p', s', caps') \<in> set (rx_run (Seq a b) (p, s, caps))"
  then obtain st where st: "st \<in> set (rx_run a (p, s, caps))"
    and r: "(p', s', caps') \<in> set (rx_run b st)" by auto
  obtain p1 s1 c1 where st_eq: "st = (p1, s1, c1)" by (cases st)
  from rx_soundD[OF assms(1) st[unfolded st_eq]] obtain u1 where u1: "s = u1 @ s1" "\<Phi> u1 caps c1"
    by blast
  from rx_soundD[OF assms(2) r[unfolded st_eq]] obtain u2 where u2: "s1 = u2 @ s'" "\<Psi> u2 c1 caps'"
    by blast
  from u1 u2 have "s = (u1 @ u2) @ s'" by simp
  with u1(2) u2(2)
  show "\<exists>u. s = u @ s' \<and> (\<exists>u1 u2 c'. u = u1 @ u2 \<and> \<Phi> u1 caps c' \<and> \<Psi> u2 c' caps')"
    by blast
qed

lemma rx_sound_Alt:
  assumes "rx_sound a \<Phi>" "rx_sound b \<Psi>"
  shows "rx_sound (Alt a b) (\<lambda>u c c'. \<Phi> u c c' \<or> \<Psi> u c c')"
proof (rule rx_soundI)
  fix p s caps p' s' caps'
  assume "(p', s', caps') \<in> set (rx_run (Alt a b) (p, s, caps))"
  then have "(p', s', caps') \<in> set (rx_run a (p, s, caps)) \<or>
             (p', s', caps') \<in> set (rx_run b (p, s, caps))" by auto
  then show "\<exists>u. s = u @ s' \<and> (\<Phi> u caps caps' \<or> \<Psi> u caps caps')"
    using rx_soundD[OF assms(1)] rx_soundD[OF assms(2)] by blast
qed

lemma rx_sound_Grp:
  assumes "rx_sound a \<Phi>"
  shows "rx_sound (Grp n a) (\<lambda>u c c'. \<exists>c0. \<Phi> u c c0 \<and> c' = (n, u) # c0)"
proof (rule rx_soundI)
  fix p s caps p' s' caps'
  assume "(p', s', caps') \<in> set (rx_run (Grp n a) (p, s, caps))"
  then obtain c0 where r: "(p', s', c0) \<in> set (rx_run a (p, s, caps))"
    and c: "caps' = (n, take (length s - length s') s) # c0" by auto
  from rx_soundD[OF assms r] obtain u where u: "s = u @ s'" "\<Phi> u caps c0" by blast
  then have "take (length s - length s') s = u" by simp
  with u c show "\<exists>u. s = u @ s' \<and> (\<exists>c0. \<Phi> u caps c0 \<and> caps' = (n, u) # c0)" by blast
qed

lemma rx_sound_rep:
  "rx_sound (rx_rep n (Cls C)) (\<lambda>u c c'. length u = n \<and> list_all C u \<and> c' = c)"
proof (induction n)
  case 0
  show ?case by (simp, rule rx_sound_weaken[OF rx_sound_Eps]) simp
next
  case (Suc n)
  show ?case
    by (simp, rule rx_sound_weaken[OF rx_sound_Seq[OF rx_sound_Cls Suc]]) auto
qed

lemma rx_sound_upto:
  "rx_sound (rx_upto n (Cls C)) (\<lambda>u c c'. length u \<le> n \<and> list_all C u \<and> c' = c)"
proof (induction n)
  case 0
  show ?case by (simp, rule rx_sound_weaken[OF rx_sound_Eps]) simp
next
  case (Suc n)
  show ?case
    by (simp, rule rx_sound_weaken[OF rx_sound_Alt[OF rx_sound_Seq[OF rx_sound_Cls Suc] rx_sound_Eps]])
       auto
qed

lemma rx_sound_between:
  "m \<le> n \<Longrightarrow> rx_sound (rx_between m n (Cls C))
     (\<lambda>u c c'. m \<le> length u \<and> length u \<le> n \<and> list_all C u \<and> c' = c)"
  unfolding rx_between_def
  by (rule rx_sound_weaken[OF rx_sound_Seq[OF rx_sound_rep rx_sound_upto]]) auto

lemma rx_sound_lit: "rx_sound (rx_lit w) (\<lambda>u c c'. u = w \<and> c' = c)"
proof (induction w)
  case Nil
  show ?case by (simp add: rx_lit_def, rule rx_sound_weaken[OF rx_sound_Eps]) simp
next
  case (Cons x w)
  from Cons have "rx_sound (foldr (\<lambda>c. Seq (rx_chr c)) w Eps) (\<lambda>u c c'. u = w \<and> c' = c)"
    by (simp add: rx_lit_def)
  from rx_sound_Seq[OF rx_sound_Cls[of "\<lambda>d. d = x"] this]
  have "rx_sound (rx_lit (x # w))
          (\<lambda>u c c''. \<exists>u1 u2 c'. u = u1 @ u2 \<and> ((\<exists>y. u1 = [y] \<and> y = x) \<and> c' = c) \<and>
                u2 = w \<and> c'' = c')"
    by (simp add: rx_lit_def rx_chr_def)
  then show ?case by (rule rx_sound_weaken) auto
qed

lemma re_match_at_sound:
  assumes "rx_sound r \<Phi>" "re_match_at r p s = Some mt"
  shows "\<Phi> (fst mt) [] (snd mt) \<and> (\<exists>s'. s = fst mt @ s')"
proof -
  from assms(2) obtain p' s' caps' rest where
    run: "rx_run r (p, s, []) = (p', s', caps') # rest"
    and mt: "mt = (take (length s - length s') s, caps')"
    by (auto simp: re_match_at_def split: list.splits)
  then have "(p', s', caps') \<in> set (rx_run r (p, s, []))" by simp
  from rx_soundD[OF assms(1) this] obtain u where u: "s = u @ s'" "\<Phi> u [] caps'" by blast
  then have "take (length s - length s') s = u" by simp
  with u mt show ?thesis by auto
qed

lemma re_search_from_sound:
  assumes "rx_sound r \<Phi>" "re_search_from r p s = Some mt"
  shows "\<Phi> (fst mt) [] (snd mt)"
  using assms(2)
proof (induction s arbitrary: p)
  case Nil
  then show ?case using re_match_at_sound[OF assms(1)] by simp
next
  case (Cons c cs)
  show ?case
  proof (cases "re_match_at r p (c # cs)")
    case None
    with Cons show ?thesis by simp
  next
    case (Some m)
    with Cons.prems have "m = mt" by simp
    with re_match_at_sound[OF assms(1) Some] show ?thesis by simp
  qed
qed

lemma is_mm_yyyy_build:
  "length m = 2 \<Longrightarrow> list_all is_digit m \<Longrightarrow> 1 \<le> py_int m \<Longrightarrow> py_int m \<le> 12 \<Longrightarrow>
   length y = 4 \<Longrightarrow> list_all is_digit y \<Longrightarrow> is_mm_yyyy (m @ ''/'' @ y)"
  by (simp add: is_mm_yyyy_def nth_append)

lemma digit_not_sign: "is_digit a \<Longrightarrow> a \<noteq> CHR ''+'' \<and> a \<noteq> CHR ''-''"
  by (auto simp: is_digit_def)

lemma zfill_digits:
  assumes "1 \<le> length m" "length m \<le> 2" "list_all is_digit m"
  shows "length (zfill 2 m) = 2 \<and> list_all is_digit (zfill 2 m)"
proof -
  from assms(1,2) consider a where "m = [a]" | a b where "m = [a, b]"
    by (cases m rule: no_double_space.cases) (auto simp: length_Suc_conv)
  then show ?thesis
  proof cases
    case 1
    with assms(3) digit_not_sign[of a] show ?thesis by (simp add: zfill_def is_digit_def)
  next
    case 2
    with assms(3) digit_not_sign[of a] show ?thesis by (simp add: zfill_def)
  qed
qed

lemma checked_month_year_shape:
  assumes "1 \<le> length m" "length m \<le> 2" "list_all is_digit m"
    "length y = 4" "list_all is_digit y" "checked_month_year m y = Some r"
  shows "is_mm_yyyy r"
proof -
  from assms(6) have r: "r = zfill 2 m @ ''/'' @ y"
    and range: "1 \<le> py_int (zfill 2 m)" "py_int (zfill 2 m) \<le> 12"
    by (auto simp: checked_month_year_def Let_def split: if_splits)
  from zfill_digits[OF assms(1-3)] range assms(4,5) show ?thesis
    unfolding r by (intro is_mm_yyyy_build) auto
qed

lemma MM_YYYY_sound:
  "rx_sound MM_YYYY (\<lambda>u c c'. \<exists>m y. 1 \<le> length m \<and> length m \<le> 2 \<and> list_all is_digit m \<and>
      length y = 4 \<and> list_all is_digit y \<and> c' = (2, y) # (1, m) # c)"
  unfolding MM_YYYY_def
  by (rule rx_sound_weaken[OF rx_sound_Seq[OF rx_sound_Bol
        rx_sound_Seq[OF rx_sound_Grp[OF rx_sound_between[of 1 2]]
        rx_sound_Seq[OF rx_sound_Cls rx_sound_Seq[OF rx_sound_Grp[OF rx_sound_rep] rx_sound_Eol]]]]])
     auto

lemma ISO_YYYY_MM_sound:
  "rx_sound ISO_YYYY_MM (\<lambda>u c c'. \<exists>m y. 1 \<le> length m \<and> length m \<le> 2 \<and> list_all is_digit m \<and>
      length y = 4 \<and> list_all is_digit y \<and> c' = (2, m) # (1, y) # c)"
  unfolding ISO_YYYY_MM_def
  by (rule rx_sound_weaken[OF rx_sound_Seq[OF rx_sound_Bol
        rx_sound_Seq[OF rx_sound_Grp[OF rx_sound_rep]
        rx_sound_Seq[OF rx_sound_Cls rx_sound_Seq[OF rx_sound_Grp[OF rx_sound_between[of 1 2]] rx_sound_Eol]]]]])
     auto

lemma DD_MM_YYYY_sound:
  "rx_sound DD_MM_YYYY (\<lambda>u c c'. \<exists>m y. 1 \<le> length m \<and> length m \<le> 2 \<and> list_all is_digit m \<and>
      length y = 4 \<and> list_all is_digit y \<and> c' = (2, y) # (1, m) # c)"
  unfolding DD_MM_YYYY_def
  by (rule rx_sound_weaken[OF rx_sound_Seq[OF rx_sound_Bol
        rx_sound_Seq[OF rx_sound_between[of 1 2]
        rx_sound_Seq[OF rx_sound_Cls
        rx_sound_Seq[OF rx_sound_Grp[OF rx_sound_between[of 1 2]]
        rx_sound_Seq[OF rx_sound_Cls rx_sound_Seq[OF rx_sound_Grp[OF rx_sound_rep] rx_sound_Eol]]]]]]])
     auto

lemma MM_YYYY_IN_TEXT_sound:
  "rx_sound MM_YYYY_IN_TEXT (\<lambda>u c c'. \<exists>m y. 1 \<le> length m \<and> length m \<le> 2 \<and> list_all is_digit m \<and>
      length y = 4 \<and> list_all is_digit y \<and> c' = (2, y) # (1, m) # c)"
  unfolding MM_YYYY_IN_TEXT_def
  by (rule rx_sound_weaken[OF rx_sound_Seq[OF rx_sound_Grp[OF rx_sound_between[of 1 2]]
        rx_sound_Seq[OF rx_sound_Cls rx_sound_Grp[OF rx_sound_rep]]]])
     auto

lemma YEAR_RX_sound:
  "rx_sound YEAR_RX (\<lambda>u c c'. length u = 4 \<and> list_all is_digit u)"
  unfolding YEAR_RX_def
  by (rule rx_sound_weaken[OF rx_sound_Seq[OF rx_sound_Wordb
        rx_sound_Seq[OF rx_sound_Grp[OF rx_sound_Alt[OF rx_sound_lit rx_sound_lit]]
        rx_sound_Seq[OF rx_sound_rep rx_sound_Wordb]]]])
     (auto simp: is_digit_def)

lemma exact_mm_yyyy_shape: "exact_mm_yyyy s = Some r \<Longrightarrow> is_mm_yyyy r"
proof -
  assume a: "exact_mm_yyyy s = Some r"
  then obtain mt where mt: "re_match MM_YYYY s = Some mt"
    and r: "checked_month_year (group mt 1) (group mt 2) = Some r"
    by (auto simp: exact_mm_yyyy_def split: option.splits)
  from re_match_at_sound[OF MM_YYYY_sound mt[unfolded re_match_def]] obtain m y where
    "1 \<le> length m" "length m \<le> 2" "list_all is_digit m" "length y = 4" "list_all is_digit y"
    "snd mt = [(2, y), (1, m)]" by blast
  with r show ?thesis
    by (cases mt) (auto simp: group_def intro: checked_month_year_shape)
qed

lemma iso_yyyy_mm_shape: "iso_yyyy_mm s = Some r \<Longrightarrow> is_mm_yyyy r"
proof -
  assume a: "iso_yyyy_mm s = Some r"
  then obtain mt where mt: "re_match ISO_YYYY_MM s = Some mt"
    and r: "checked_month_year (group mt 2) (group mt 1) = Some r"
    by (auto simp: iso_yyyy_mm_def split: option.splits)
  from re_match_at_sound[OF ISO_YYYY_MM_sound mt[unfolded re_match_def]] obtain m y where
    "1 \<le> length m" "length m \<le> 2" "list_all is_digit m" "length y = 4" "list_all is_digit y"
    "snd mt = [(2, m), (1, y)]" by blast
  with r show ?thesis
    by (cases mt) (auto simp: group_def intro: checked_month_year_shape)
qed

lemma dd_mm_yyyy_shape: "dd_mm_yyyy s = Some r \<Longrightarrow> is_mm_yyyy r"
proof -
  assume a: "dd_mm_yyyy s = Some r"
  then obtain mt where mt: "re_match DD_MM_YYYY s = Some mt"
    and r: "checked_month_year (group mt 1) (group mt 2) = Some r"
    by (auto simp: dd_mm_yyyy_def split: option.splits)
  from re_match_at_sound[OF DD_MM_YYYY_sound mt[unfolded re_match_def]] obtain m y where
    "1 \<le> length m" "length m \<le> 2" "list_all is_digit m" "length y = 4" "list_all is_digit y"
    "snd mt = [(2, y), (1, m)]" by blast
  with r show ?thesis
    by (cases mt) (auto simp: group_def intro: checked_month_year_shape)
qed

lemma embedded_mm_yyyy_shape: "embedded_mm_yyyy s = Some r \<Longrightarrow> is_mm_yyyy r"
proof -
  assume a: "embedded_mm_yyyy s = Some r"
  then obtain mt where mt: "re_search MM_YYYY_IN_TEXT s = Some mt"
    and r: "checked_month_year (group mt 1) (group mt 2) = Some r"
    by (auto simp: embedded_mm_yyyy_def split: option.splits)
  from re_search_from_sound[OF MM_YYYY_IN_TEXT_sound mt[unfolded re_search_def]] obtain m y where
    "1 \<le> length m" "length m \<le> 2" "list_all is_digit m" "length y = 4" "list_all is_digit y"
    "snd mt = [(2, y), (1, m)]" by blast
  with r show ?thesis
    by (cases mt) (auto simp: group_def intro: checked_month_year_shape)
qed

lemma py_int_01: "py_int ''01'' = 1"
  by code_simp

lemma year_match_shape:
  "re_search YEAR_RX s = Some mt \<Longrightarrow> length (group mt 0) = 4 \<and> list_all is_digit (group mt 0)"
  using re_search_from_sound[OF YEAR_RX_sound, of None s mt]
  by (simp add: re_search_def group_def)

lemma bare_year_shape: "bare_year s = Some r \<Longrightarrow> is_mm_yyyy r"
proof -
  assume "bare_year s = Some r"
  then obtain mt where mt: "re_search YEAR_RX s = Some mt" and r: "r = ''01'' @ ''/'' @ group mt 0"
    by (auto simp: bare_year_def split: option.splits)
  from year_match_shape[OF mt] show ?thesis
    unfolding r by (intro is_mm_yyyy_build) (simp_all add: py_int_01 is_digit_def)
qed

lemma month_numbers_valid:
  "list_all (\<lambda>(name, num). length num = 2 \<and> list_all is_digit num \<and>
                            1 \<le> py_int num \<and> py_int num \<le> 12) month_names"
  by code_simp

lemma scan_month_names_shape:
  assumes "list_all (\<lambda>(name, num). length num = 2 \<and> list_all is_digit num \<and>
                            1 \<le> py_int num \<and> py_int num \<le> 12) table"
    and "scan_month_names table dl s = Some r"
  shows "is_mm_yyyy r"
  using assms
proof (induction table)
  case Nil then show ?case by simp
next
  case (Cons e table)
  obtain name num where e: "e = (name, num)" by (cases e)
  show ?case
  proof (cases "str_contains name dl \<and> re_search YEAR_RX s \<noteq> None")
    case True
    then obtain mt where mt: "re_search YEAR_RX s = Some mt" by auto
    with True Cons.prems(2) e have r: "r = num @ ''/'' @ group mt 0" by simp
    from Cons.prems(1) e year_match_shape[OF mt] show ?thesis
      unfolding r by (intro is_mm_yyyy_build) auto
  next
    case False
    with Cons.prems(2) e have "scan_month_names table dl s = Some r"
      by (auto split: if_splits option.splits)
    with Cons show ?thesis by simp
  qed
qed

lemma month_name_year_shape: "month_name_year s = Some r \<Longrightarrow> is_mm_yyyy r"
  unfolding month_name_year_def by (rule scan_month_names_shape[OF month_numbers_valid])

lemma normalize_date_shape: "normalize_date d = Some r \<Longrightarrow> is_mm_yyyy r"
proof -
  assume "normalize_date d = Some r"
  then have "spec_normalize_date d = Some r" by (simp add: normalize_date_refines)
  then obtain raw where "first_success date_patterns (clean_date raw) = Some r"
    by (auto simp: spec_normalize_date_def split: option.splits if_splits)
  then show ?thesis
    unfolding date_patterns_def
    by (auto split: option.splits
        dest: exact_mm_yyyy_shape iso_yyyy_mm_shape month_name_year_shape dd_mm_yyyy_shape
              bare_year_shape embedded_mm_yyyy_shape)
qed

lemma sep_not_digit: "is_date_sep c \<Longrightarrow> \<not> is_digit c"
  by (auto simp: is_date_sep_def is_digit_def)

lemma digit_not_sep: "is_digit c \<Longrightarrow> \<not> is_date_sep c"
  by (auto simp: is_date_sep_def is_digit_def)

lemma digit_not_space: "is_digit c \<Longrightarrow> \<not> py_isspace c"
  by (auto simp: py_isspace_def is_digit_def)

lemma digit_lower: "is_digit c \<Longrightarrow> py_lower_char c = c"
  by (auto simp: is_digit_def py_lower_char_def)

lemma digit_cases: "is_digit c \<Longrightarrow> c \<in> set ''0123456789''"
  by (simp add: is_digit_def)

lemma four_digits:
  "length y = 4 \<Longrightarrow> list_all is_digit y \<Longrightarrow>
   \<exists>c1 c2 c3 c4. y = [c1, c2, c3, c4] \<and> is_digit c1 \<and> is_digit c2 \<and> is_digit c3 \<and> is_digit c4"
  by (auto simp: length_Suc_conv eval_nat_numeral)

lemma MM_YYYY_accepts:
  assumes "m = [a] \<or> m = [a, b]" "is_digit a" "is_digit b" "is_date_sep sep"
    "length y = 4" "list_all is_digit y"
  shows "re_match MM_YYYY (m @ sep # y) = Some (m @ sep # y, [(2, y), (1, m)])"
proof -
  from four_digits[OF assms(5,6)] obtain c1 c2 c3 c4 where
    y: "y = [c1, c2, c3, c4]" and d: "is_digit c1" "is_digit c2" "is_digit c3" "is_digit c4"
    by blast
  note ns = sep_not_digit[OF assms(4)] digit_not_sep[OF assms(3)]
  from assms(1) show ?thesis
  proof
    assume "m = [a]"
    then show ?thesis unfolding y
      by (simp add: re_match_def re_match_at_def MM_YYYY_def rx_between_def eval_nat_numeral
          assms(2,4) d ns)
  next
    assume "m = [a, b]"
    then show ?thesis unfolding y
      by (simp add: re_match_def re_match_at_def MM_YYYY_def rx_between_def eval_nat_numeral
          assms(2,3,4) d ns)
  qed
qed

lemma DATE_PREFIX_digit:
  assumes "is_digit a"
  shows "re_match DATE_PREFIX (a # rest) = None"
proof -
  have l: "py_lower_char a = a" using assms by (rule digit_lower)
  have n: "a \<noteq> CHR ''i''" "a \<noteq> CHR ''c''" "a \<noteq> CHR ''e''" "a \<noteq> CHR ''o''" "a \<noteq> CHR ''r''"
    "a \<noteq> CHR ''d''"
    using assms by (auto simp: is_digit_def)
  have ll: "py_lower_char (CHR ''i'') = CHR ''i''" "py_lower_char (CHR ''c'') = CHR ''c''"
    "py_lower_char (CHR ''e'') = CHR ''e''" "py_lower_char (CHR ''o'') = CHR ''o''"
    "py_lower_char (CHR ''r'') = CHR ''r''" "py_lower_char (CHR ''d'') = CHR ''d''"
    by (simp_all add: py_lower_char_def)
  show ?thesis
    by (simp add: re_match_def re_match_at_def DATE_PREFIX_def rx_lit_i_def rx_opt_def rx_chr_def
        l n ll)
qed

lemma clean_date_digits:
  assumes "is_digit a" "is_digit z" 
  shows "clean_date (a # mid @ [z]) = a # mid @ [z]"
proof -
  have s: "strip (a # mid @ [z]) = a # mid @ [z]"
    by (rule strip_fixed) (simp add: digit_not_space[OF assms(1)] digit_not_space[OF assms(2)])
  show ?thesis
    unfolding clean_date_def s re_sub_at_start_def DATE_PREFIX_digit[OF assms(1)]
    by (simp add: s)
qed

lemma py_int_zfill:
  assumes "m = [a] \<or> m = [a, b]" "is_digit a"
  shows "py_int (zfill 2 m) = py_int m"
  using assms digit_not_sign[of a] by (auto simp: zfill_def py_int_def)

lemma exact_mm_yyyy_wins:
  assumes "m = [a] \<or> m = [a, b]" "is_digit a" "is_digit b" "is_date_sep sep"
    "length y = 4" "list_all is_digit y" "1 \<le> py_int m" "py_int m \<le> 12"
  shows "normalize_date (Some (m @ sep # y)) = Some (zfill 2 m @ ''/'' @ y)"
proof -
  from four_digits[OF assms(5,6)] obtain c1 c2 c3 c4 where
    y: "y = [c1, c2, c3, c4]" and d: "is_digit c4" by blast
  obtain mid where mid: "m @ sep # y = a # mid @ [c4]"
    using assms(1) y by auto
  have c: "clean_date (m @ sep # y) = m @ sep # y"
    unfolding mid by (rule clean_date_digits[OF assms(2) d])
  have e: "exact_mm_yyyy (m @ sep # y) = Some (zfill 2 m @ ''/'' @ y)"
    unfolding exact_mm_yyyy_def MM_YYYY_accepts[OF assms(1-6)]
    using assms(7,8) py_int_zfill[OF assms(1,2)]
    by (simp add: group_def checked_month_year_def Let_def)
  have "m @ sep # y \<noteq> []" using assms(1) by auto
  then show ?thesis
    unfolding normalize_date_refines spec_normalize_date_def
    by (simp add: c date_patterns_def e)
qed

lemma date_examples_exact:
  "normalize_date (Some ''03/2023'') = Some ''03/2023''"
  "normalize_date (Some ''3/2023'') = Some ''03/2023''"
  "normalize_date (Some ''7-2019'') = Some ''07/2019''"
  "exact_mm_yyyy ''3/2023'' = Some ''03/2023''"
  "bare_year ''03/2023'' = Some ''01/2023''"
  by code_simp+

lemma date_examples_which:
  "exact_mm_yyyy ''2023-03'' = None \<and> iso_yyyy_mm ''2023-03'' = Some ''03/2023''"
  "iso_yyyy_mm ''March 2023'' = None \<and> month_name_year ''March 2023'' = Some ''03/2023''"
  "month_name_year ''15/03/2023'' = None \<and> dd_mm_yyyy ''15/03/2023'' = Some ''03/2023''"
  "dd_mm_yyyy ''2023'' = None \<and> bare_year ''2023'' = Some ''01/2023''"
  "bare_year ''ref 7-1850 x'' = None \<and> embedded_mm_yyyy ''ref 7-1850 x'' = Some ''07/1850''"
  "normalize_date (Some ''ref 7-1850 x'') = Some ''07/1850''"
  "embedded_mm_yyyy ''on 05/2023 ok'' = Some ''05/2023''"
  "normalize_date (Some ''on 05/2023 ok'') = Some ''01/2023''"
  "normalize_date (Some ''13/1850'') = None"
  by code_simp+

section \<open>Properties of the two text normalizers and of the contact step\<close>

lemma visible_append: "visible (xs @ ys) = visible xs @ visible ys"
  by (simp add: visible_def)

lemma visible_spaces: "list_all py_isspace xs \<Longrightarrow> visible xs = []"
  by (induction xs) (auto simp: visible_def)

lemma visible_str_replace:
  "list_all py_isspace old \<Longrightarrow> list_all py_isspace new \<Longrightarrow>
   visible (str_replace old new s) = visible s"
proof (induction old new s rule: str_replace.induct)
  case (1 old new)
  show ?case by simp
next
  case (2 old new c cs)
  show ?case
  proof (cases "old \<noteq> [] \<and> prefix old (c # cs)")
    case True
    then obtain rest where rest: "c # cs = old @ rest" by (auto simp: prefix_def)
    then have d: "drop (length old) (c # cs) = rest" by (metis append_eq_conv_conj)
    from 2(1)[OF True 2(3,4)] have ih: "visible (str_replace old new rest) = visible rest"
      unfolding d by simp
    have "str_replace old new (c # cs) = new @ str_replace old new (drop (length old) (c # cs))"
      using True by (subst str_replace.simps) (simp only: if_True simp_thms)
    then have "visible (str_replace old new (c # cs)) = visible rest"
      unfolding d by (simp only: visible_append visible_spaces[OF 2(4)] ih append_Nil)
    moreover have "visible (c # cs) = visible rest"
      unfolding rest by (simp add: visible_append visible_spaces[OF 2(3)])
    ultimately show ?thesis by simp
  next
    case False
    then have "str_replace old new (c # cs) = c # str_replace old new cs"
      by (subst str_replace.simps) (simp only: if_False simp_thms)
    with 2(2)[OF False 2(3,4)] show ?thesis by (simp add: visible_def)
  qed
qed

lemma visible_re_sub_runs:
  "(\<And>c. C c \<Longrightarrow> py_isspace c) \<Longrightarrow> list_all py_isspace rep \<Longrightarrow>
   visible (re_sub_runs C n rep s) = visible s"
proof (induction C n rep s rule: re_sub_runs.induct)
  case (1 C n rep)
  show ?case by simp
next
  case (2 C n rep c cs)
  show ?case
  proof (cases "C c \<and> n \<le> length (takeWhile C (c # cs))")
    case True
    have "re_sub_runs C n rep (c # cs) = rep @ re_sub_runs C n rep (dropWhile C (c # cs))"
      using True by (subst re_sub_runs.simps) (simp only: if_True simp_thms)
    then have "visible (re_sub_runs C n rep (c # cs)) = visible (dropWhile C (c # cs))"
      using 2(1)[OF True 2(3,4)] by (simp only: visible_append visible_spaces[OF 2(4)] append_Nil)
    moreover have "list_all py_isspace (takeWhile C (c # cs))"
      using 2(3) by (auto simp: list_all_iff dest: set_takeWhileD)
    then have "visible (takeWhile C (c # cs) @ dropWhile C (c # cs)) = visible (dropWhile C (c # cs))"
      by (simp only: visible_append visible_spaces append_Nil)
    ultimately show ?thesis by (simp only: takeWhile_dropWhile_id)
  next
    case False
    then have "re_sub_runs C n rep (c # cs) = c # re_sub_runs C n rep cs"
      by (subst re_sub_runs.simps) (simp only: if_False simp_thms)
    with 2(2)[OF False 2(3,4)] show ?thesis by (simp add: visible_def)
  qed
qed

lemma visible_dropWhile: "visible (dropWhile py_isspace s) = visible s"
  by (induction s) (auto simp: visible_def)

lemma visible_rev: "visible (rev s) = rev (visible s)"
  by (simp add: visible_def rev_filter)

lemma visible_strip: "visible (strip s) = visible s"
  by (simp add: strip_def lstrip_def rstrip_def visible_rev visible_dropWhile)

lemma ocr_fix_space: "py_isspace (ocr_fix c) = py_isspace c"
  by (auto simp: ocr_fix_def py_isspace_def)

lemma visible_map_fix: "visible (map ocr_fix s) = map ocr_fix (visible s)"
  by (induction s) (auto simp: visible_def ocr_fix_space)

lemma replace_is_fix:
  "str_replace ''0'' ''O'' (str_replace ''|'' ''I'' s) = map ocr_fix s"
  by (simp add: str_replace_single ocr_fix_def)

lemma normalize_text_visible: "visible (normalize_text t) = map ocr_fix (visible t)"
proof -
  have a: "visible (str_replace [CR] [LF] (str_replace [CR, LF] [LF] t)) = visible t"
    by (simp add: visible_str_replace py_isspace_def)
  have b: "\<And>s. visible (re_sub_runs is_blank 1 '' '' s) = visible s"
    by (rule visible_re_sub_runs) (auto simp: is_blank_def py_isspace_def)
  have c: "\<And>s. visible (re_sub_runs is_newline 3 [LF, LF] s) = visible s"
    by (rule visible_re_sub_runs) (auto simp: is_newline_def py_isspace_def)
  show ?thesis
    unfolding normalize_text_def Let_def replace_is_fix
    by (simp only: visible_strip visible_map_fix c b a)
qed

lemma BLANK_LINES_sound: "rx_sound BLANK_LINES (\<lambda>u c c'. list_all py_isspace u)"
  unfolding BLANK_LINES_def rx_chr_def
  by (rule rx_sound_weaken[OF rx_sound_Seq[OF rx_sound_Cls rx_sound_Seq[OF rx_sound_Many rx_sound_Cls]]])
     (auto simp: py_isspace_def)

lemma visible_re_sub_from:
  "rx_sound r (\<lambda>u c c'. list_all py_isspace u) \<Longrightarrow> list_all py_isspace rep \<Longrightarrow>
   visible (re_sub_from r rep prev s) = visible s"
proof (induction r rep prev s rule: re_sub_from.induct)
  case (1 r rep prev)
  show ?case by simp
next
  case (2 r rep prev c cs)
  show ?case
  proof (cases "re_match_at r prev (c # cs)")
    case None
    with 2(1)[OF None 2(4,5)] show ?thesis by (simp add: visible_def)
  next
    case (Some m)
    show ?thesis
    proof (cases "fst m = []")
      case True
      with 2(2)[OF Some True 2(4,5)] Some show ?thesis by (simp add: visible_def)
    next
      case False
      from re_match_at_sound[OF 2(4) Some] obtain s' where
        u: "list_all py_isspace (fst m)" and s': "c # cs = fst m @ s'" by blast
      have d: "drop (length (fst m)) (c # cs) = s'" unfolding s' by simp
      have "re_sub_from r rep prev (c # cs) = rep @ re_sub_from r rep (Some (last (fst m))) s'"
        using Some False d by (simp del: drop_Suc_Cons)
      then have "visible (re_sub_from r rep prev (c # cs)) = visible s'"
        using 2(3)[OF Some False 2(4,5)] unfolding d
        by (simp only: visible_append visible_spaces[OF 2(5)] append_Nil)
      moreover have "visible (c # cs) = visible s'"
        unfolding s' by (simp only: visible_append visible_spaces[OF u] append_Nil)
      ultimately show ?thesis by simp
    qed
  qed
qed

lemma cert_normalize_text_visible: "visible (cert_normalize_text t) = map ocr_fix (visible t)"
proof -
  have a: "visible (re_sub_runs py_isspace 1 '' '' t) = visible t"
    by (rule visible_re_sub_runs) (auto simp: py_isspace_def)
  have b: "\<And>s. visible (re_sub BLANK_LINES [LF] s) = visible s"
    unfolding re_sub_def
    by (rule visible_re_sub_from[OF BLANK_LINES_sound]) (simp add: py_isspace_def)
  show ?thesis
    unfolding cert_normalize_text_def Let_def replace_is_fix
    by (simp only: visible_strip b visible_map_fix a)
qed

lemma body_contacts:
  assumes "parse_resume_body P t = Inr r"
  shows "r = empty_resume \<or>
         (\<exists>c. parse_personal_details P (normalize_text t) = Inr c \<and>
              contacts r = Some (case c of None \<Rightarrow> empty_contacts | Some c \<Rightarrow> c))"
proof (cases "normalize_text t = [] \<or> length (strip (normalize_text t)) < 10")
  case True
  with assms show ?thesis by (auto simp: parse_resume_body_def Let_def)
next
  case False
  with assms show ?thesis
    by (auto simp: parse_resume_body_def Let_def dest!: bind_err_Inr)
qed

lemma parse_resume_contacts:
  assumes "parse_resume P t = Inr r"
  shows "r = empty_resume \<or>
         (\<exists>c. parse_personal_details P (normalize_text t) = Inr c \<and>
              contacts r = Some (case c of None \<Rightarrow> empty_contacts | Some c \<Rightarrow> c))"
proof (cases "parse_resume_body P t")
  case (Inl e)
  with assms show ?thesis by (simp add: parse_resume_def)
next
  case (Inr r')
  with assms have "r' = r" by (simp add: parse_resume_def)
  with Inr body_contacts[of P t r] show ?thesis by simp
qed

lemma strict_echo_agrees: "agree_on_clean echo_parsers strict_echo_parsers"
  by (simp add: agree_on_clean_def strict_echo_parsers_def echo_parsers_def)

lemma strict_echo_differs:
  "parse_personal_details echo_parsers ''Phone 9876543210'' \<noteq>
   parse_personal_details strict_echo_parsers ''Phone 9876543210''"
  by (simp add: strict_echo_parsers_def echo_parsers_def ocr_clean_def)

lemma echo_result:
  "parse_resume echo_parsers ''Phone 9876543210'' =
     Inr \<lparr>contacts = Some (empty_contacts\<lparr>address := Some ''Phone 987654321O''\<rparr>),
          experience = None, education = None, skills = None, projects = None,
          certifications = None, achievements = None, summary = None\<rparr>"
  by code_simp

lemma phone_visible: "visible (normalize_text ''Phone 9876543210'') = ''Phone987654321O''"
  by code_simp

section \<open>Claims about the pipeline, the date normalizer and contact validation\<close>

text \<open>
  Claim C9. \<open>parse_resume\<close> never raises, whatever the parsers it calls do: it always
  returns a record. For an input that is empty or shorter than ten characters after
  normalization the record is the empty one (an empty contacts object, every other field
  absent), and so it is whenever the body of the \<open>try\<close> block raises.
\<close>

theorem parse_resume_never_raises:
  "(\<exists>r. parse_resume P t = Inr r) \<and>
   (length (strip (normalize_text t)) < 10 \<longrightarrow> parse_resume P t = Inr empty_resume) \<and>
   (\<forall>e. parse_resume_body P t = Inl e \<longrightarrow> parse_resume P t = Inr empty_resume)"
  using parse_resume_returns[of P t] parse_resume_short[of t P]
  by (simp add: normalize_text_stripped parse_resume_def)

theorem parse_resume_never_raises_witness:
  "length (strip (normalize_text ''J. Doe  '')) < 10 \<and>
   parse_resume raising_parsers ''J. Doe  '' = Inr empty_resume \<and>
   parse_resume_body raising_parsers ''Achievements\<newline>Prize'' = Inl OtherError \<and>
   parse_resume raising_parsers ''Achievements\<newline>Prize'' = Inr empty_resume"
  using parse_resume_never_raises [of raising_parsers "''J. Doe  ''"]
    parse_resume_never_raises [of raising_parsers "''Achievements\<newline>Prize''"]
    short_example example_body_raises
  by blast



text \<open>
  Claim C10. Both text normalizers replace every \<open>|\<close> by \<open>I\<close> and every \<open>0\<close> by
  \<open>O\<close> and otherwise touch whitespace only: the characters of the output that are not
  whitespace are those of the input, in order, each passed through the replacement. So
  neither output contains \<open>|\<close> or \<open>0\<close>. \<open>parse_resume\<close> hands only such texts to its
  extractors: two sets of parsers that answer alike on all texts without \<open>|\<close> and \<open>0\<close>
  give the same result on every input, and the contacts of a result that is not the
  default one are what the contact parser answered on the normalized text.
\<close>

theorem extraction_sees_normalized_text:
  "visible (normalize_text t) = map ocr_fix (visible t) \<and>
   visible (cert_normalize_text t) = map ocr_fix (visible t) \<and>
   CHR ''|'' \<notin> set (normalize_text t) \<and> CHR ''0'' \<notin> set (normalize_text t) \<and>
   CHR ''|'' \<notin> set (cert_normalize_text t) \<and> CHR ''0'' \<notin> set (cert_normalize_text t) \<and>
   (agree_on_clean P Q \<longrightarrow> parse_resume P t = parse_resume Q t) \<and>
   (parse_resume P t = Inr r \<longrightarrow>
      r = empty_resume \<or>
      (\<exists>c. parse_personal_details P (normalize_text t) = Inr c \<and>
           contacts r = Some (case c of None \<Rightarrow> empty_contacts | Some c \<Rightarrow> c)))"
  using normalize_text_visible[of t] cert_normalize_text_visible[of t]
    normalize_text_props[of t] cert_normalize_text_clean[of t] body_agree[of P Q t]
    parse_resume_contacts[of P t r]
  by (simp add: parse_resume_def)

theorem extraction_sees_normalized_text_witness:
  "visible (normalize_text ''Phone 9876543210'') = map ocr_fix ''Phone9876543210'' \<and>
   visible (normalize_text ''Phone 9876543210'') = ''Phone987654321O'' \<and>
   validate_phone (Some ''9876543210'') = Some ''9876543210'' \<and>
   validate_phone (Some ''987654321O'') = None \<and>
   agree_on_clean echo_parsers strict_echo_parsers \<and>
   parse_personal_details echo_parsers ''Phone 9876543210'' \<noteq>
     parse_personal_details strict_echo_parsers ''Phone 9876543210'' \<and>
   parse_resume strict_echo_parsers ''Phone 9876543210'' =
     Inr \<lparr>contacts = Some (empty_contacts\<lparr>address := Some ''Phone 987654321O''\<rparr>),
          experience = None, education = None, skills = None, projects = None,
          certifications = None, achievements = None, summary = None\<rparr>"
proof -
  have v: "visible ''Phone 9876543210'' = ''Phone9876543210''" by code_simp
  note th = extraction_sees_normalized_text
              [of "''Phone 9876543210''" echo_parsers strict_echo_parsers]
  from th have a: "visible (normalize_text ''Phone 9876543210'') = map ocr_fix ''Phone9876543210''"
    unfolding v by (rule conjunct1)
  from th strict_echo_agrees
  have "parse_resume echo_parsers ''Phone 9876543210'' =
        parse_resume strict_echo_parsers ''Phone 9876543210''" by blast
  then have b: "parse_resume strict_echo_parsers ''Phone 9876543210'' =
     Inr \<lparr>contacts = Some (empty_contacts\<lparr>address := Some ''Phone 987654321O''\<rparr>),
          experience = None, education = None, skills = None, projects = None,
          certifications = None, achievements = None, summary = None\<rparr>"
    by (simp only: echo_result)
  from a b phone_visible phone_example_valid strict_echo_agrees strict_echo_differs
  show ?thesis by (intro conjI) (simp_all only: simp_thms)
qed

text \<open>
  Claim C8. The date normalizer is the first success of six patterns tried in the order
  MM/YYYY, ISO YYYY-MM, month name and year, DD/MM/YYYY, bare year, embedded MM/YYYY.
  Every result has the form MM/YYYY with a month from 01 to 12. A text made of a month of
  one or two digits in that range, a slash or a hyphen and four digits is taken by the
  first pattern, its month padded to two digits. The five dates of the specification
  normalize as it says, each by the pattern the precedence gives it; \<open>03/2023\<close>, which
  the bare-year pattern would turn into \<open>01/2023\<close>, keeps its month, and a text that
  both the bare-year and the embedded pattern accept goes to the bare-year pattern.
  \<open>13/2023\<close>, whose month is out of range, is rejected by the first pattern and taken
  by the bare-year pattern, and \<open>13/1850\<close>, which no pattern accepts, is absent.
\<close>

theorem normalize_date_precedence:
  "normalize_date d = spec_normalize_date d \<and>
   (normalize_date d = Some r \<longrightarrow> is_mm_yyyy r) \<and>
   ((m = [a] \<or> m = [a, b]) \<and> is_digit a \<and> is_digit b \<and> is_date_sep sep \<and>
    length y = 4 \<and> list_all is_digit y \<and> 1 \<le> py_int m \<and> py_int m \<le> 12 \<longrightarrow>
      normalize_date (Some (m @ sep # y)) = Some (zfill 2 m @ ''/'' @ y)) \<and>
   normalize_date (Some ''March 2023'') = Some ''03/2023'' \<and>
   normalize_date (Some ''2023-03'') = Some ''03/2023'' \<and>
   normalize_date (Some ''15/03/2023'') = Some ''03/2023'' \<and>
   normalize_date (Some ''2023'') = Some ''01/2023'' \<and>
   normalize_date (Some ''not a date'') = None \<and>
   normalize_date (Some ''03/2023'') = Some ''03/2023'' \<and>
   normalize_date (Some ''3/2023'') = Some ''03/2023'' \<and>
   normalize_date (Some ''7-2019'') = Some ''07/2019'' \<and>
   bare_year ''03/2023'' = Some ''01/2023'' \<and>
   (exact_mm_yyyy ''2023-03'' = None \<and> iso_yyyy_mm ''2023-03'' = Some ''03/2023'') \<and>
   (iso_yyyy_mm ''March 2023'' = None \<and> month_name_year ''March 2023'' = Some ''03/2023'') \<and>
   (month_name_year ''15/03/2023'' = None \<and> dd_mm_yyyy ''15/03/2023'' = Some ''03/2023'') \<and>
   (dd_mm_yyyy ''2023'' = None \<and> bare_year ''2023'' = Some ''01/2023'') \<and>
   (bare_year ''ref 7-1850 x'' = None \<and> embedded_mm_yyyy ''ref 7-1850 x'' = Some ''07/1850'') \<and>
   normalize_date (Some ''ref 7-1850 x'') = Some ''07/1850'' \<and>
   embedded_mm_yyyy ''on 05/2023 ok'' = Some ''05/2023'' \<and>
   normalize_date (Some ''on 05/2023 ok'') = Some ''01/2023'' \<and>
   exact_mm_yyyy ''13/2023'' = None \<and>
   normalize_date (Some ''13/2023'') = Some ''01/2023'' \<and>
   normalize_date (Some ''13/1850'') = None"
proof -
  have shape: "normalize_date d = Some r \<longrightarrow> is_mm_yyyy r"
    using normalize_date_shape by blast
  have wins: "(m = [a] \<or> m = [a, b]) \<and> is_digit a \<and> is_digit b \<and> is_date_sep sep \<and>
    length y = 4 \<and> list_all is_digit y \<and> 1 \<le> py_int m \<and> py_int m \<le> 12 \<longrightarrow>
      normalize_date (Some (m @ sep # y)) = Some (zfill 2 m @ ''/'' @ y)"
    using exact_mm_yyyy_wins by blast
  show ?thesis
    using normalize_date_refines[of d] shape wins date_examples date_examples_exact
      date_examples_which
    by (intro conjI) (simp_all only: simp_thms)
qed

theorem normalize_date_precedence_witness:
  "normalize_date (Some ''15/03/2023'') = Some ''03/2023'' \<and> is_mm_yyyy ''03/2023'' \<and>
   is_digit (CHR ''3'') \<and> is_date_sep (CHR ''/'') \<and> list_all is_digit ''2023'' \<and>
   py_int ''3'' = 3 \<and>
   normalize_date (Some (''3'' @ CHR ''/'' # ''2023'')) = Some (zfill 2 ''3'' @ ''/'' @ ''2023'') \<and>
   zfill 2 ''3'' @ ''/'' @ ''2023'' = ''03/2023'' \<and>
   spec_normalize_date (Some ''2023-03'') = Some ''03/2023''"
proof -
  note th = normalize_date_precedence
      [of "Some ''15/03/2023''" "''03/2023''" "''3''" "CHR ''3''" "CHR ''3''" "CHR ''/''" "''2023''"]
  from th have e: "normalize_date (Some ''15/03/2023'') = Some ''03/2023''" by blast
  with th have s: "is_mm_yyyy ''03/2023''" by blast
  have h: "is_digit (CHR ''3'')" "is_date_sep (CHR ''/'')" "list_all is_digit ''2023''"
    "py_int ''3'' = 3" "length ''2023'' = 4" "zfill 2 ''3'' @ ''/'' @ ''2023'' = ''03/2023''"
    by code_simp+
  from h have r: "1 \<le> py_int ''3''" "py_int ''3'' \<le> 12" by simp_all
  from th h(1,2,3,5) r
  have w: "normalize_date (Some (''3'' @ CHR ''/'' # ''2023'')) = Some (zfill 2 ''3'' @ ''/'' @ ''2023'')"
    by blast
  from normalize_date_precedence [of "Some ''2023-03''"]
  have i: "spec_normalize_date (Some ''2023-03'') = Some ''03/2023''" by metis
  from e s h w i show ?thesis by (intro conjI) (simp_all only: simp_thms)
qed

text \<open>
  Claim C1 at a failing input. The email check matches a prefix of the candidate and the
  postcode check matches its first digits, so a candidate with text after a well-formed
  address or after five digits is kept as it came and reaches the contact record.
\<close>

theorem contact_validation_at_failing_input:
  "validate_email (Some ''john@example.com<script>'') = Some ''john@example.com<script>'' \<and>
   validate_post_code (Some ''12345 Main Street'') = Some ''12345 Main Street'' \<and>
   email (contacts_from_data
            [''email'' \<mapsto> ''john@example.com<script>'', ''post_code'' \<mapsto> ''12345 Main Street'']
            \<lparr>email_fallback = None, phone_fallback = None, github_fallback = None,
             leetcode_fallback = None, linkedin_fallback = None\<rparr>)
     = Some ''john@example.com<script>'' \<and>
   post_code (contacts_from_data
            [''email'' \<mapsto> ''john@example.com<script>'', ''post_code'' \<mapsto> ''12345 Main Street'']
            \<lparr>email_fallback = None, phone_fallback = None, github_fallback = None,
             leetcode_fallback = None, linkedin_fallback = None\<rparr>)
     = Some ''12345 Main Street''"
  by code_simp

theorem contact_validation_at_failing_input_witness:
  "validate_email (Some ''john@example.com<script>'') \<noteq> None \<and>
   validate_post_code (Some ''12345 Main Street'') \<noteq> None"
  using contact_validation_at_failing_input by simp

end
